theory Spec2Isabelle
  imports
    Main
    "HOL-Library.Char_ord"
    "HOL-Library.List_Lexorder"
    "HOL-Library.Product_Lexorder"
    "HOL-Library.Multiset"
begin

section \<open>Data model (src/types.ts)\<close>

text \<open>
  The TypeScript type \<open>number\<close> is kept as a type parameter \<open>'n\<close>: the
  derivation only uses \<open>0\<close>, \<open>+\<close>, \<open>-\<close> and \<open>\<ge>\<close> on amounts. Each theorem
  below names the laws of arithmetic it needs through the sort of \<open>'n\<close>; a theorem
  for sort \<open>{zero,plus,minus,ord}\<close> uses no law at all, and so holds of the
  floating-point numbers of the host, which are modelled further down as the type
  \<open>double\<close>.
\<close>

datatype AccountType = Asset | Liability | Income | Expense | Equity

datatype BalanceType = Dr | Cr

text \<open>The field \<open>id\<close> of the source is named \<open>tx_id\<close> (\<open>id\<close> is the identity of HOL).\<close>

record 'n Transaction =
  tx_id :: string
  date :: string
  particulars :: string
  debit :: 'n
  credit :: 'n
  party :: string
  accountType :: AccountType

record 'n LedgerEntry = "'n Transaction" +
  balance :: 'n
  balanceType :: BalanceType

record 'n AccountLedger =
  accountName :: string
  entries :: "'n LedgerEntry list"
  openingBalance :: 'n
  closingBalance :: 'n
  closingBalanceType :: BalanceType
  totalDebit :: 'n
  totalCredit :: 'n

section \<open>Host functions used by the derivation\<close>

text \<open>
  \<open>Array.from(new Set(xs))\<close>: a \<open>Set\<close> keeps its elements in insertion order and
  \<open>add\<close> leaves the set as it is when the element is already there.
\<close>

definition Set_add :: "'a list \<Rightarrow> 'a \<Rightarrow> 'a list" where
  "Set_add s x = (if x \<in> set s then s else s @ [x])"

definition Array_from_Set :: "'a list \<Rightarrow> 'a list" where
  "Array_from_Set xs = foldl Set_add [] xs"

text \<open>
  \<open>a.localeCompare(b)\<close> is negative, zero or positive as \<open>a\<close> sorts before, with or
  after \<open>b\<close> in the collation of the host's locale. Which strings sort before which
  is the host's business, so the derivation below takes \<open>localeCompare\<close> as a
  parameter.
\<close>

type_synonym comparison = "string \<Rightarrow> string \<Rightarrow> int"

text \<open>
  \<open>Array.prototype.sort(comparefn)\<close> is a stable sort: the array ends up ordered by
  \<open>comparefn\<close>, and elements that \<open>comparefn\<close> does not tell apart stay in the order
  they had. For a consistent comparison function there is one such result, and it
  is what inserting the elements one by one from the right computes: an element
  goes in front of the first element that \<open>comparefn\<close> does not put before it.
\<close>

fun sort_insert :: "('a \<Rightarrow> 'a \<Rightarrow> int) \<Rightarrow> 'a \<Rightarrow> 'a list \<Rightarrow> 'a list" where
  "sort_insert comparefn x [] = [x]"
| "sort_insert comparefn x (y # ys) =
     (if comparefn x y \<le> 0 then x # y # ys else y # sort_insert comparefn x ys)"

definition Array_sort :: "('a \<Rightarrow> 'a \<Rightarrow> int) \<Rightarrow> 'a list \<Rightarrow> 'a list" where
  "Array_sort comparefn xs = foldr (sort_insert comparefn) xs []"

section \<open>Comparison functions\<close>

text \<open>
  A consistent comparison function, as the language standard defines it for
  \<open>sort\<close>: ``equal'' (result \<open>0\<close>) is reflexive, symmetric and transitive, and
  ``before'' (negative) and ``after'' (positive) are transitive.
\<close>

definition consistent_comparator :: "('a \<Rightarrow> 'a \<Rightarrow> int) \<Rightarrow> bool" where
  "consistent_comparator c \<longleftrightarrow>
     (\<forall>a. c a a = 0) \<and>
     (\<forall>a b. c a b = 0 \<longrightarrow> c b a = 0) \<and>
     (\<forall>a b d. c a b = 0 \<and> c b d = 0 \<longrightarrow> c a d = 0) \<and>
     (\<forall>a b d. c a b < 0 \<and> c b d < 0 \<longrightarrow> c a d < 0) \<and>
     (\<forall>a b d. c a b > 0 \<and> c b d > 0 \<longrightarrow> c a d > 0)"

text \<open>The comparison that orders by a key.\<close>

definition compare_by :: "('a \<Rightarrow> 'k::linorder) \<Rightarrow> 'a \<Rightarrow> 'a \<Rightarrow> int" where
  "compare_by key a b = (if key a < key b then - 1 else if key a = key b then 0 else 1)"

text \<open>
  Two comparisons of strings, used below as values of the parameter
  \<open>localeCompare\<close>. \<open>codeunit_compare\<close> orders strings character by character by
  their codes, as \<open><\<close> on strings does. \<open>caseless_compare\<close> compares letters
  without regard to case, and lets case decide only between strings that are
  otherwise the same, lower case first; everything else it leaves in the order of
  the codes. It is not the host's collation, which has more rules, but like the
  collation of the usual locales it orders \<open>feb\<close> before \<open>Jan\<close>, where the codes
  order \<open>Jan\<close> before \<open>feb\<close>.
\<close>

definition codeunit_compare :: comparison where
  "codeunit_compare = compare_by (\<lambda>s. s)"

definition is_upper :: "char \<Rightarrow> bool" where
  "is_upper c \<longleftrightarrow> CHR ''A'' \<le> c \<and> c \<le> CHR ''Z''"

definition to_lower :: "char \<Rightarrow> char" where
  "to_lower c = (if is_upper c then char_of (of_char c + (32::nat)) else c)"

definition caseless_key :: "string \<Rightarrow> string \<times> bool list" where
  "caseless_key s = (map to_lower s, map is_upper s)"

definition caseless_compare :: comparison where
  "caseless_compare = compare_by caseless_key"

section \<open>The ledger derivation (src/App.tsx, \<open>ledgers\<close>)\<close>

text \<open>
  \<open>ledgers\<close> maps the callback \<open>party => {...}\<close> over the distinct parties. The
  callback is \<open>ledger_of\<close>: it computes \<open>partyTxs\<close> (filter, then sort) and then
  walks it (\<open>ledger_from\<close>). The first argument of \<open>partyTxs\<close>, \<open>ledger_of\<close> and
  \<open>ledgers\<close> is the host's \<open>localeCompare\<close>.
\<close>

definition isAssetOrExpense :: "AccountType \<Rightarrow> bool" where
  "isAssetOrExpense a \<longleftrightarrow> a = Asset \<or> a = Expense"

text \<open>
  The conditional expression that labels a balance, written twice in the source
  (for \<open>balanceType\<close> and for \<open>closingBalanceType\<close>).
\<close>

definition balanceLabel :: "bool \<Rightarrow> 'n::{zero,ord} \<Rightarrow> BalanceType" where
  "balanceLabel ae runningBalance =
     (if runningBalance \<ge> 0 then (if ae then Dr else Cr) else (if ae then Cr else Dr))"

text \<open>
  The three accumulators \<open>runningBalance\<close>, \<open>totalDebit\<close>, \<open>totalCredit\<close> of the
  source are threaded as a triple (the last two as \<open>totDebit\<close>, \<open>totCredit\<close>: the
  full names are the fields of the ledger). \<open>entry_of\<close> is the body of the callback of
  \<open>partyTxs.map\<close>: it updates the accumulators and returns the entry, a copy of the
  transaction with \<open>balance\<close> and \<open>balanceType\<close> added.
\<close>

type_synonym 'n accumulators = "'n \<times> 'n \<times> 'n"

fun entry_of :: "'n::{zero,plus,minus,ord} accumulators \<Rightarrow> 'n Transaction
    \<Rightarrow> 'n LedgerEntry \<times> 'n accumulators" where
  "entry_of (runningBalance, totDebit, totCredit) tx =
     (let totDebit' = totDebit + debit tx;
          totCredit' = totCredit + credit tx;
          ae = isAssetOrExpense (accountType tx);
          runningBalance' =
            (if ae then runningBalance + (debit tx - credit tx)
             else runningBalance + (credit tx - debit tx))
      in (\<lparr>tx_id = tx_id tx, date = date tx, particulars = particulars tx,
            debit = debit tx, credit = credit tx, party = party tx,
            accountType = accountType tx,
            balance = runningBalance',
            balanceType = balanceLabel ae runningBalance'\<rparr>,
          (runningBalance', totDebit', totCredit')))"

fun map_entries :: "'n::{zero,plus,minus,ord} accumulators \<Rightarrow> 'n Transaction list
    \<Rightarrow> 'n LedgerEntry list \<times> 'n accumulators" where
  "map_entries acc [] = ([], acc)"
| "map_entries acc (tx # txs) =
     (case entry_of acc tx of (e, acc') \<Rightarrow>
        (case map_entries acc' txs of (es, acc'') \<Rightarrow> (e # es, acc'')))"

definition partyTxs :: "comparison \<Rightarrow> 'n Transaction list \<Rightarrow> string
    \<Rightarrow> 'n Transaction list" where
  "partyTxs localeCompare transactions p =
     Array_sort (\<lambda>a b. localeCompare (date a) (date b))
       (filter (\<lambda>t. party t = p) transactions)"

text \<open>
  The callback after \<open>partyTxs\<close> is computed: the walk, then the ledger record.
  \<open>firstTx?.accountType === 'Asset'\<close> is false when \<open>partyTxs\<close> is empty.
\<close>

definition ledger_from :: "string \<Rightarrow> 'n::{zero,plus,minus,ord} Transaction list
    \<Rightarrow> 'n AccountLedger" where
  "ledger_from p txs =
     (case map_entries (0, 0, 0) txs of
        (es, (runningBalance, totDebit, totCredit)) \<Rightarrow>
          let ae = (case txs of [] \<Rightarrow> False
                    | firstTx # _ \<Rightarrow> isAssetOrExpense (accountType firstTx))
          in \<lparr>accountName = p,
              entries = es,
              openingBalance = 0,
              closingBalance = runningBalance,
              closingBalanceType = balanceLabel ae runningBalance,
              totalDebit = totDebit,
              totalCredit = totCredit\<rparr>)"

definition ledger_of :: "comparison \<Rightarrow> 'n::{zero,plus,minus,ord} Transaction list \<Rightarrow> string
    \<Rightarrow> 'n AccountLedger" where
  "ledger_of localeCompare transactions p =
     ledger_from p (partyTxs localeCompare transactions p)"

definition ledgers :: "comparison \<Rightarrow> 'n::{zero,plus,minus,ord} Transaction list
    \<Rightarrow> 'n AccountLedger list" where
  "ledgers localeCompare transactions =
     map (ledger_of localeCompare transactions) (Array_from_Set (map party transactions))"

section \<open>The derivation over a store of arrays\<close>

text \<open>
  \<open>filter\<close> returns a new array and \<open>sort\<close> sorts its receiver in place. To say
  that the derivation leaves its input alone, the arrays of transactions live in a
  store: an address is an index into the store, \<open>filter\<close> allocates at the end and
  \<open>sort\<close> overwrites the array at its receiver's address and returns that address.
  The arrays of parties, entries and ledgers have other element types and are new
  in every call; they stay values. A reference of the source always points to an
  array, so an address given to these functions is below the length of the store;
  the theorem about them assumes it of the input.
\<close>

type_synonym 'n store = "'n Transaction list list"

definition filter_st :: "('n Transaction \<Rightarrow> bool) \<Rightarrow> nat \<Rightarrow> 'n store \<Rightarrow> nat \<times> 'n store" where
  "filter_st P a st = (length st, st @ [filter P (st ! a)])"

definition sort_st :: "('n Transaction \<Rightarrow> 'n Transaction \<Rightarrow> int) \<Rightarrow> nat \<Rightarrow> 'n store
    \<Rightarrow> nat \<times> 'n store" where
  "sort_st comparefn a st = (a, st[a := Array_sort comparefn (st ! a)])"

definition partyTxs_st :: "comparison \<Rightarrow> nat \<Rightarrow> string \<Rightarrow> 'n store
    \<Rightarrow> nat \<times> 'n store" where
  "partyTxs_st localeCompare transactions p st =
     (case filter_st (\<lambda>t. party t = p) transactions st of
        (filtered, st') \<Rightarrow> sort_st (\<lambda>a b. localeCompare (date a) (date b)) filtered st')"

definition ledger_of_st :: "comparison \<Rightarrow> nat \<Rightarrow> string
    \<Rightarrow> 'n::{zero,plus,minus,ord} store \<Rightarrow> 'n AccountLedger \<times> 'n store" where
  "ledger_of_st localeCompare transactions p st =
     (case partyTxs_st localeCompare transactions p st of
        (txs, st') \<Rightarrow> (ledger_from p (st' ! txs), st'))"

fun map_ledger_of_st :: "comparison \<Rightarrow> nat \<Rightarrow> string list
    \<Rightarrow> 'n::{zero,plus,minus,ord} store \<Rightarrow> 'n AccountLedger list \<times> 'n store" where
  "map_ledger_of_st localeCompare transactions [] st = ([], st)"
| "map_ledger_of_st localeCompare transactions (p # ps) st =
     (case ledger_of_st localeCompare transactions p st of (l, st') \<Rightarrow>
        (case map_ledger_of_st localeCompare transactions ps st' of
           (ls, st'') \<Rightarrow> (l # ls, st'')))"

definition ledgers_st :: "comparison \<Rightarrow> nat \<Rightarrow> 'n::{zero,plus,minus,ord} store
    \<Rightarrow> 'n AccountLedger list \<times> 'n store" where
  "ledgers_st localeCompare transactions st =
     map_ledger_of_st localeCompare transactions
       (Array_from_Set (map party (st ! transactions))) st"

section \<open>The numbers of the host\<close>

text \<open>
  A \<open>number\<close> of the host is a binary floating-point number with 53 significant
  bits. Every finite one is a whole multiple of \<open>2^(-1074)\<close>, so \<open>Double n\<close> stands for
  the number \<open>n * 2^(-1074)\<close>. A sum or a difference is the exact result rounded
  to 53 significant bits, to the nearest such number and to the one with an even
  last bit when two are equally near (\<open>round53\<close>). Results too large to be finite,
  and the values that are not numbers, are not modelled: amounts stay finite.
\<close>

fun bit_length :: "nat \<Rightarrow> nat" where
  "bit_length n = (if n = 0 then 0 else Suc (bit_length (n div 2)))"

declare bit_length.simps [simp del]

definition round53 :: "int \<Rightarrow> int" where
  "round53 n =
     (if bit_length (nat \<bar>n\<bar>) \<le> 53 then n
      else let u = 2 ^ (bit_length (nat \<bar>n\<bar>) - 53);
               q = n div u;
               r = n mod u
           in (if 2 * r < u \<or> (2 * r = u \<and> even q) then q else q + 1) * u)"

datatype double = Double int

instantiation double :: "{zero,plus,minus,linorder}"
begin

definition zero_double :: double where
  "0 = Double 0"

fun plus_double :: "double \<Rightarrow> double \<Rightarrow> double" where
  "Double a + Double b = Double (round53 (a + b))"

fun minus_double :: "double \<Rightarrow> double \<Rightarrow> double" where
  "Double a - Double b = Double (round53 (a - b))"

fun less_eq_double :: "double \<Rightarrow> double \<Rightarrow> bool" where
  "Double a \<le> Double b \<longleftrightarrow> a \<le> b"

fun less_double :: "double \<Rightarrow> double \<Rightarrow> bool" where
  "Double a < Double b \<longleftrightarrow> a < b"

instance
proof
  fix x y z :: double
  show "x < y \<longleftrightarrow> x \<le> y \<and> \<not> y \<le> x" by (cases x; cases y) auto
  show "x \<le> x" by (cases x) simp
  show "x \<le> y \<Longrightarrow> y \<le> z \<Longrightarrow> x \<le> z" by (cases x; cases y; cases z) simp
  show "x \<le> y \<Longrightarrow> y \<le> x \<Longrightarrow> x = y" by (cases x; cases y) simp
  show "x \<le> y \<or> y \<le> x" by (cases x; cases y) auto
qed

end

text \<open>
  \<open>dyadic m e\<close> is the number \<open>m * 2^e\<close> (for \<open>e\<close> from \<open>-1074\<close> on), and
  \<open>double_of_int i\<close> the whole number \<open>i\<close>. \<open>is_whole\<close> says that a number is whole
  and \<open>whole_of\<close> gives the integer it is.
\<close>

definition grid :: nat where
  "grid = 1074"

definition dyadic :: "int \<Rightarrow> int \<Rightarrow> double" where
  "dyadic m e = Double (m * 2 ^ nat (e + int grid))"

definition double_of_int :: "int \<Rightarrow> double" where
  "double_of_int i = Double (i * 2 ^ grid)"

fun is_whole :: "double \<Rightarrow> bool" where
  "is_whole (Double n) \<longleftrightarrow> 2 ^ grid dvd n"

fun whole_of :: "double \<Rightarrow> int" where
  "whole_of (Double n) = n div 2 ^ grid"

section \<open>Notions used to state the properties\<close>

text \<open>
  The signed amount of a transaction under the sign rule: debit minus credit for
  \<open>Asset\<close> and \<open>Expense\<close>, credit minus debit for \<open>Liability\<close>, \<open>Income\<close> and
  \<open>Equity\<close>.
\<close>

definition signed_amount :: "'n::minus Transaction \<Rightarrow> 'n" where
  "signed_amount tx =
     (case accountType tx of
        Asset \<Rightarrow> debit tx - credit tx
      | Expense \<Rightarrow> debit tx - credit tx
      | Liability \<Rightarrow> credit tx - debit tx
      | Income \<Rightarrow> credit tx - debit tx
      | Equity \<Rightarrow> credit tx - debit tx)"

text \<open>The transactions of party \<open>p\<close>, in input order.\<close>

definition of_party :: "string \<Rightarrow> 'n Transaction list \<Rightarrow> 'n Transaction list" where
  "of_party p T = filter (\<lambda>t. party t = p) T"

text \<open>The position of the first occurrence of \<open>x\<close> in a list (its length if there is none).\<close>

fun first_index :: "'a list \<Rightarrow> 'a \<Rightarrow> nat" where
  "first_index [] x = 0"
| "first_index (y # ys) x = (if y = x then 0 else Suc (first_index ys x))"

text \<open>The transaction an entry carries: the entry without \<open>balance\<close> and \<open>balanceType\<close>.\<close>

abbreviation tx_of :: "'n LedgerEntry \<Rightarrow> 'n Transaction" where
  "tx_of \<equiv> Transaction.truncate"

section \<open>Example inputs\<close>

text \<open>
  Two receivable postings out of date order, a sale in between, and a party whose
  two postings carry different account types.
\<close>

definition abc_receipt :: "int Transaction" where
  "abc_receipt = \<lparr>tx_id = ''t1'', date = ''2024-01-05'', particulars = ''receipt'',
     debit = 0, credit = 400, party = ''ABC Traders'', accountType = Asset\<rparr>"

definition sales :: "int Transaction" where
  "sales = \<lparr>tx_id = ''t2'', date = ''2024-02-01'', particulars = ''sale'',
     debit = 0, credit = 5000, party = ''Sales Revenue'', accountType = Income\<rparr>"

definition abc_invoice :: "int Transaction" where
  "abc_invoice = \<lparr>tx_id = ''t3'', date = ''2024-01-01'', particulars = ''invoice'',
     debit = 1000, credit = 0, party = ''ABC Traders'', accountType = Asset\<rparr>"

definition mixed_first :: "int Transaction" where
  "mixed_first = \<lparr>tx_id = ''t4'', date = ''2024-03-01'', particulars = ''deposit'',
     debit = 100, credit = 0, party = ''Mixed'', accountType = Asset\<rparr>"

definition mixed_second :: "int Transaction" where
  "mixed_second = \<lparr>tx_id = ''t5'', date = ''2024-03-02'', particulars = ''fee'',
     debit = 0, credit = 50, party = ''Mixed'', accountType = Income\<rparr>"

definition example_txs :: "int Transaction list" where
  "example_txs = [abc_receipt, sales, abc_invoice, mixed_first, mixed_second]"

text \<open>
  Two postings of one party whose dates differ in the case of a letter; in the
  second pair the postings carry different account types.
\<close>

definition jan_posting :: "int Transaction" where
  "jan_posting = \<lparr>tx_id = ''j1'', date = ''1 Jan 2024'', particulars = ''invoice'',
     debit = 100, credit = 0, party = ''Jay'', accountType = Asset\<rparr>"

definition feb_posting :: "int Transaction" where
  "feb_posting = \<lparr>tx_id = ''j2'', date = ''1 feb 2024'', particulars = ''receipt'',
     debit = 0, credit = 150, party = ''Jay'', accountType = Asset\<rparr>"

definition jan_asset :: "int Transaction" where
  "jan_asset = \<lparr>tx_id = ''k1'', date = ''1 Jan 2024'', particulars = ''deposit'',
     debit = 100, credit = 0, party = ''Kay'', accountType = Asset\<rparr>"

definition feb_income :: "int Transaction" where
  "feb_income = \<lparr>tx_id = ''k2'', date = ''1 feb 2024'', particulars = ''fee'',
     debit = 0, credit = 50, party = ''Kay'', accountType = Income\<rparr>"

text \<open>
  Postings in the numbers of the host. The numbers nearest to \<open>0.1\<close>, \<open>0.2\<close> and
  \<open>0.3\<close> are \<open>3602879701896397 * 2^(-55)\<close>, \<open>7205759403792794 * 2^(-55)\<close> and
  \<open>10808639105689190 * 2^(-55)\<close>. The first three postings are debits of one day;
  the last three are a debit of \<open>0.3\<close> and credits of \<open>0.1\<close> and \<open>0.2\<close>.
\<close>

definition tenth :: double where
  "tenth = dyadic 3602879701896397 (- 55)"

definition two_tenths :: double where
  "two_tenths = dyadic 7205759403792794 (- 55)"

definition three_tenths :: double where
  "three_tenths = dyadic 10808639105689190 (- 55)"

definition posting :: "string \<Rightarrow> string \<Rightarrow> double \<Rightarrow> double \<Rightarrow> double Transaction" where
  "posting i d dr cr = \<lparr>tx_id = i, date = d, particulars = ''posting'',
     debit = dr, credit = cr, party = ''Cash'', accountType = Asset\<rparr>"

definition debit_1 :: "double Transaction" where
  "debit_1 = posting ''a'' ''2024-01-01'' tenth 0"

definition debit_2 :: "double Transaction" where
  "debit_2 = posting ''b'' ''2024-01-01'' two_tenths 0"

definition debit_3 :: "double Transaction" where
  "debit_3 = posting ''c'' ''2024-01-01'' three_tenths 0"

definition paid_in :: "double Transaction" where
  "paid_in = posting ''d'' ''2024-01-01'' three_tenths 0"

definition paid_out_1 :: "double Transaction" where
  "paid_out_1 = posting ''e'' ''2024-01-02'' 0 tenth"

definition paid_out_2 :: "double Transaction" where
  "paid_out_2 = posting ''f'' ''2024-01-03'' 0 two_tenths"

text \<open>The same kind of postings in whole amounts.\<close>

definition whole_in :: "double Transaction" where
  "whole_in = posting ''g'' ''2024-01-01'' (double_of_int 1000) 0"

definition whole_out :: "double Transaction" where
  "whole_out = posting ''h'' ''2024-01-01'' 0 (double_of_int 400)"

section \<open>The host functions\<close>

lemma mset_sort_insert: "mset (sort_insert c x ys) = add_mset x (mset ys)"
  by (induction ys) simp_all

lemma mset_Array_sort: "mset (Array_sort c xs) = mset xs"
  by (induction xs) (simp_all add: Array_sort_def mset_sort_insert)

lemma set_Array_sort: "set (Array_sort c xs) = set xs"
  using mset_Array_sort[of c xs] by (metis set_mset_mset)

lemma length_Array_sort: "length (Array_sort c xs) = length xs"
  using mset_Array_sort[of c xs] by (metis size_mset)

lemma partyTxs_eq:
  "partyTxs cmp T p = Array_sort (\<lambda>a b. cmp (date a) (date b)) (of_party p T)"
  by (simp add: partyTxs_def of_party_def)

lemma mset_partyTxs: "mset (partyTxs cmp T p) = mset (of_party p T)"
  by (simp only: partyTxs_eq mset_Array_sort)

lemma set_partyTxs: "set (partyTxs cmp T p) = {t \<in> set T. party t = p}"
  by (simp add: partyTxs_eq set_Array_sort of_party_def)

lemma length_partyTxs: "length (partyTxs cmp T p) = length (of_party p T)"
  by (simp only: partyTxs_eq length_Array_sort)

lemma partyTxs_nonempty: "p \<in> party ` set T \<Longrightarrow> partyTxs cmp T p \<noteq> []"
proof
  assume "p \<in> party ` set T" and "partyTxs cmp T p = []"
  then have "{t \<in> set T. party t = p} = {}" "\<exists>t\<in>set T. party t = p"
    using set_partyTxs[of cmp T p] by auto
  then show False by blast
qed

lemma Array_from_Set_snoc: "Array_from_Set (xs @ [x]) = Set_add (Array_from_Set xs) x"
  by (simp add: Array_from_Set_def)

lemma Array_from_Set_Nil: "Array_from_Set [] = []"
  by (simp add: Array_from_Set_def)

lemma set_Array_from_Set: "set (Array_from_Set xs) = set xs"
  by (induction xs rule: rev_induct)
    (auto simp: Array_from_Set_snoc Array_from_Set_Nil Set_add_def)

lemma distinct_Array_from_Set: "distinct (Array_from_Set xs)"
  by (induction xs rule: rev_induct)
    (auto simp: Array_from_Set_snoc Array_from_Set_Nil Set_add_def set_Array_from_Set)

lemma first_index_append_in: "x \<in> set xs \<Longrightarrow> first_index (xs @ ys) x = first_index xs x"
  by (induction xs) auto

lemma first_index_append_notin:
  "x \<notin> set xs \<Longrightarrow> first_index (xs @ ys) x = length xs + first_index ys x"
  by (induction xs) auto

lemma first_index_less: "x \<in> set xs \<Longrightarrow> first_index xs x < length xs"
  by (induction xs) auto

lemma Array_from_Set_order:
  "sorted_wrt (\<lambda>p q. first_index xs p < first_index xs q) (Array_from_Set xs)"
proof (induction xs rule: rev_induct)
  case Nil
  show ?case by (simp add: Array_from_Set_Nil)
next
  case (snoc x xs)
  have mono: "sorted_wrt (\<lambda>p q. first_index (xs @ [x]) p < first_index (xs @ [x]) q)
      (Array_from_Set xs)"
    using snoc
    by (rule sorted_wrt_mono_rel[rotated]) (simp add: set_Array_from_Set first_index_append_in)
  show ?case
  proof (cases "x \<in> set xs")
    case True
    with mono show ?thesis
      by (simp add: Array_from_Set_snoc Set_add_def set_Array_from_Set)
  next
    case False
    then have "\<forall>p\<in>set xs. first_index (xs @ [x]) p < first_index (xs @ [x]) x"
      by (simp add: first_index_append_in first_index_append_notin first_index_less)
    with mono False show ?thesis
      by (simp add: Array_from_Set_snoc Set_add_def set_Array_from_Set sorted_wrt_append)
  qed
qed

section \<open>Consistent comparison functions and the sort\<close>

lemma consistent_total:
  assumes "consistent_comparator c"
  shows "c a b \<le> 0 \<or> c b a \<le> 0"
proof (rule ccontr)
  assume "\<not> (c a b \<le> 0 \<or> c b a \<le> 0)"
  then have "c a b > 0" "c b a > 0" by simp_all
  with assms have "c a a > 0" unfolding consistent_comparator_def by blast
  moreover from assms have "c a a = 0" unfolding consistent_comparator_def by blast
  ultimately show False by simp
qed

lemma consistent_flip:
  assumes "consistent_comparator c" and "c a b > 0"
  shows "c b a < 0"
proof -
  from assms consistent_total[OF assms(1), of a b] have "c b a \<le> 0" by auto
  moreover have "c b a \<noteq> 0"
  proof
    assume "c b a = 0"
    with assms(1) have "c a b = 0" unfolding consistent_comparator_def by blast
    with assms(2) show False by simp
  qed
  ultimately show ?thesis by simp
qed

lemma consistent_trans:
  assumes cc: "consistent_comparator c" and ab: "c a b \<le> 0" and bd: "c b d \<le> 0"
  shows "c a d \<le> 0"
proof (rule ccontr)
  assume "\<not> c a d \<le> 0"
  then have ad: "c a d > 0" by simp
  then have da: "c d a < 0" by (rule consistent_flip[OF cc])
  from cc have sym: "\<And>x y. c x y = 0 \<Longrightarrow> c y x = 0"
    and eq: "\<And>x y z. c x y = 0 \<Longrightarrow> c y z = 0 \<Longrightarrow> c x z = 0"
    and lt: "\<And>x y z. c x y < 0 \<Longrightarrow> c y z < 0 \<Longrightarrow> c x z < 0"
    unfolding consistent_comparator_def by blast+
  consider "c a b < 0" "c b d < 0" | "c a b = 0" "c b d = 0"
    | "c a b < 0" "c b d = 0" | "c a b = 0" "c b d < 0"
    using ab bd by linarith
  then show False
  proof cases
    case 1
    then have "c a d < 0" by (rule lt)
    with ad show False by simp
  next
    case 2
    then have "c a d = 0" by (rule eq)
    with ad show False by simp
  next
    case 3
    from da 3(1) have "c d b < 0" by (rule lt)
    moreover from 3(2) have "c d b = 0" by (rule sym)
    ultimately show False by simp
  next
    case 4
    from 4(2) da have "c b a < 0" by (rule lt)
    moreover from 4(1) have "c b a = 0" by (rule sym)
    ultimately show False by simp
  qed
qed

lemma consistent_refl: "consistent_comparator c \<Longrightarrow> c a a \<le> 0"
  unfolding consistent_comparator_def by simp

lemma consistent_compare_by: "consistent_comparator (compare_by key)"
  unfolding consistent_comparator_def compare_by_def by (auto split: if_splits)

lemma set_sort_insert: "set (sort_insert c x ys) = insert x (set ys)"
  using mset_sort_insert[of c x ys] by (metis set_mset_add_mset_insert set_mset_mset)

lemma sorted_wrt_sort_insert:
  assumes total: "\<And>a b. c a b \<le> 0 \<or> c b a \<le> 0"
    and trans: "\<And>a b d. c a b \<le> 0 \<Longrightarrow> c b d \<le> 0 \<Longrightarrow> c a d \<le> (0::int)"
  shows "sorted_wrt (\<lambda>a b. c a b \<le> 0) ys \<Longrightarrow> sorted_wrt (\<lambda>a b. c a b \<le> 0) (sort_insert c x ys)"
proof (induction ys)
  case Nil
  show ?case by simp
next
  case (Cons y ys)
  show ?case
  proof (cases "c x y \<le> 0")
    case True
    with Cons.prems trans have "\<forall>z\<in>set ys. c x z \<le> 0" by auto
    with True Cons.prems show ?thesis by simp
  next
    case False
    with total[of x y] have "c y x \<le> 0" by simp
    with False Cons show ?thesis by (auto simp: set_sort_insert)
  qed
qed

lemma sorted_wrt_Array_sort:
  assumes total: "\<And>a b. c a b \<le> 0 \<or> c b a \<le> 0"
    and trans: "\<And>a b d. c a b \<le> 0 \<Longrightarrow> c b d \<le> 0 \<Longrightarrow> c a d \<le> (0::int)"
  shows "sorted_wrt (\<lambda>a b. c a b \<le> 0) (Array_sort c xs)"
proof (induction xs)
  case Nil
  show ?case by (simp add: Array_sort_def)
next
  case (Cons x xs)
  have "Array_sort c (x # xs) = sort_insert c x (Array_sort c xs)"
    by (simp add: Array_sort_def)
  with Cons sorted_wrt_sort_insert[of c, OF total trans] show ?case by simp
qed

lemma filter_sort_insert:
  assumes "\<And>y. P x \<Longrightarrow> P y \<Longrightarrow> c x y \<le> (0::int)"
  shows "filter P (sort_insert c x ys) = filter P (x # ys)"
  using assms by (induction ys) auto

lemma filter_Array_sort:
  assumes "\<And>x y. P x \<Longrightarrow> P y \<Longrightarrow> c x y \<le> (0::int)"
  shows "filter P (Array_sort c xs) = filter P xs"
proof (induction xs)
  case Nil
  show ?case by (simp add: Array_sort_def)
next
  case (Cons x xs)
  have "Array_sort c (x # xs) = sort_insert c x (Array_sort c xs)"
    by (simp add: Array_sort_def)
  then have "filter P (Array_sort c (x # xs)) = filter P (x # Array_sort c xs)"
    using filter_sort_insert[of P x c "Array_sort c xs"] assms by simp
  with Cons show ?case by simp
qed

section \<open>The walk over a party's transactions\<close>

lemma map_entries_Cons_fst:
  "fst (map_entries acc (tx # txs))
     = fst (entry_of acc tx) # fst (map_entries (snd (entry_of acc tx)) txs)"
  by (simp split: prod.splits)

lemma map_entries_Cons_snd:
  "snd (map_entries acc (tx # txs)) = snd (map_entries (snd (entry_of acc tx)) txs)"
  by (simp split: prod.splits)

lemma entry_of_snd:
  "snd (entry_of (rb, td, tc) tx) = (rb + signed_amount tx, td + debit tx, tc + credit tx)"
  by (cases "accountType tx") (simp_all add: Let_def isAssetOrExpense_def signed_amount_def)

lemma entry_of_tx: "tx_of (fst (entry_of acc tx)) = tx"
  by (cases acc) (simp add: Let_def Transaction.defs)

lemma entry_of_accountType: "accountType (fst (entry_of acc tx)) = accountType tx"
  by (cases acc) (simp add: Let_def)

lemma entry_of_balance: "balance (fst (entry_of (rb, td, tc) tx)) = rb + signed_amount tx"
  by (cases "accountType tx") (simp_all add: Let_def isAssetOrExpense_def signed_amount_def)

lemma entry_of_balanceType:
  "balanceType (fst (entry_of acc tx))
     = balanceLabel (isAssetOrExpense (accountType tx)) (balance (fst (entry_of acc tx)))"
  by (cases acc) (simp add: Let_def)

lemmas walk_simps = map_entries_Cons_fst map_entries_Cons_snd

lemma map_entries_length: "length (fst (map_entries acc txs)) = length txs"
  by (induction txs arbitrary: acc)
    (simp_all add: walk_simps del: map_entries.simps(2) entry_of.simps)

lemma map_entries_tx: "map tx_of (fst (map_entries acc txs)) = txs"
  by (induction txs arbitrary: acc)
    (simp_all add: walk_simps entry_of_tx del: map_entries.simps(2) entry_of.simps)

lemma map_entries_snd:
  "snd (map_entries (rb, td, tc) txs) =
     (foldl (+) rb (map signed_amount txs),
      foldl (+) td (map debit txs),
      foldl (+) tc (map credit txs))"
  by (induction txs arbitrary: rb td tc)
    (simp_all add: walk_simps entry_of_snd del: map_entries.simps(2) entry_of.simps)

lemma map_entries_balance:
  "k < length txs \<Longrightarrow>
     balance (fst (map_entries (rb, td, tc) txs) ! k)
       = foldl (+) rb (map signed_amount (take (Suc k) txs))"
proof (induction txs arbitrary: rb td tc k)
  case Nil
  then show ?case by simp
next
  case (Cons tx txs)
  show ?case
  proof (cases k)
    case 0
    then show ?thesis
      by (simp add: walk_simps entry_of_balance del: map_entries.simps(2) entry_of.simps)
  next
    case (Suc j)
    with Cons.prems have "j < length txs" by simp
    from Cons.IH[OF this] Suc show ?thesis
      by (simp add: walk_simps entry_of_snd del: map_entries.simps(2) entry_of.simps)
  qed
qed

lemma map_entries_balanceType:
  "e \<in> set (fst (map_entries acc txs)) \<Longrightarrow>
     balanceType e = balanceLabel (isAssetOrExpense (accountType e)) (balance e)"
proof (induction txs arbitrary: acc)
  case Nil
  then show ?case by simp
next
  case (Cons tx txs)
  from Cons.prems
  consider "e = fst (entry_of acc tx)" | "e \<in> set (fst (map_entries (snd (entry_of acc tx)) txs))"
    by (auto simp add: walk_simps simp del: map_entries.simps(2) entry_of.simps)
  then show ?case
  proof cases
    case 1
    then show ?thesis by (simp only: entry_of_balanceType entry_of_accountType)
  next
    case 2
    then show ?thesis by (rule Cons.IH)
  qed
qed

section \<open>The fields of a ledger\<close>

lemma accountName_ledger_of: "accountName (ledger_of cmp T p) = p"
  by (simp add: ledger_of_def ledger_from_def Let_def split: prod.splits)

lemma entries_ledger_of: "entries (ledger_of cmp T p) = fst (map_entries (0, 0, 0) (partyTxs cmp T p))"
  by (simp add: ledger_of_def ledger_from_def Let_def split: prod.splits)

lemma openingBalance_ledger_of: "openingBalance (ledger_of cmp T p) = 0"
  by (simp add: ledger_of_def ledger_from_def Let_def split: prod.splits)

lemma closingBalance_ledger_of:
  "closingBalance (ledger_of cmp T p) = foldl (+) 0 (map signed_amount (partyTxs cmp T p))"
  using map_entries_snd[of 0 0 0 "partyTxs cmp T p"]
  by (auto simp add: ledger_of_def ledger_from_def Let_def split: prod.splits)

lemma totalDebit_ledger_of:
  "totalDebit (ledger_of cmp T p) = foldl (+) 0 (map debit (partyTxs cmp T p))"
  using map_entries_snd[of 0 0 0 "partyTxs cmp T p"]
  by (auto simp add: ledger_of_def ledger_from_def Let_def split: prod.splits)

lemma totalCredit_ledger_of:
  "totalCredit (ledger_of cmp T p) = foldl (+) 0 (map credit (partyTxs cmp T p))"
  using map_entries_snd[of 0 0 0 "partyTxs cmp T p"]
  by (auto simp add: ledger_of_def ledger_from_def Let_def split: prod.splits)

lemma closingBalanceType_ledger_of:
  "closingBalanceType (ledger_of cmp T p) =
     balanceLabel
       (case partyTxs cmp T p of [] \<Rightarrow> False
        | firstTx # _ \<Rightarrow> isAssetOrExpense (accountType firstTx))
       (closingBalance (ledger_of cmp T p))"
  by (simp add: ledger_of_def ledger_from_def Let_def split: prod.splits)

lemma txs_ledger_of: "map tx_of (entries (ledger_of cmp T p)) = partyTxs cmp T p"
  by (simp add: entries_ledger_of map_entries_tx)

lemma ledgers_names: "map accountName (ledgers cmp T) = Array_from_Set (map party T)"
  by (simp add: ledgers_def comp_def accountName_ledger_of)

lemma ledgers_nth:
  "i < length (ledgers cmp T) \<Longrightarrow> ledgers cmp T ! i = ledger_of cmp T (Array_from_Set (map party T) ! i)"
  by (simp add: ledgers_def)

lemma ledgers_mem: "L \<in> set (ledgers cmp T) \<longleftrightarrow> (\<exists>t\<in>set T. L = ledger_of cmp T (party t))"
  by (auto simp: ledgers_def set_Array_from_Set)

lemma ledgers_memD:
  "L \<in> set (ledgers cmp T) \<Longrightarrow> L = ledger_of cmp T (accountName L) \<and> accountName L \<in> party ` set T"
  by (auto simp: ledgers_mem accountName_ledger_of)

lemma date_tx_of: "date (tx_of e) = date e"
  by (simp add: Transaction.defs)

lemma accountType_tx_of: "accountType (tx_of e) = accountType e"
  by (simp add: Transaction.defs)

lemma entries_are_sorted_party:
  assumes "L \<in> set (ledgers cmp T)"
  shows "map tx_of (entries L)
    = Array_sort (\<lambda>a b. cmp (date a) (date b)) (of_party (accountName L) T)"
proof -
  from assms have L: "L = ledger_of cmp T (accountName L)" by (simp add: ledgers_memD)
  show ?thesis
    by (subst L) (simp only: txs_ledger_of partyTxs_eq accountName_ledger_of)
qed

section \<open>The running balance\<close>

text \<open>
  C1. In every ledger the derivation returns, whatever comparison of strings the
  host's \<open>localeCompare\<close> is, the entries carry the party's transactions in the order
  in which the sort by date leaves them, and the balance of the \<open>k\<close>-th entry is
  the prefix sum over those transactions up to and including position \<open>k\<close>, from
  an accumulator that starts at \<open>0\<close>, of the signed amounts: debit minus credit for
  a transaction of type \<open>Asset\<close> or \<open>Expense\<close>, credit minus debit for \<open>Liability\<close>,
  \<open>Income\<close> or \<open>Equity\<close>. The sum is taken from the left, as the code adds; no law
  of arithmetic is used.
\<close>

theorem running_balance_is_prefix_sum:
  fixes T :: "'n::{zero,plus,minus,ord} Transaction list"
  assumes "L \<in> set (ledgers cmp T)" and "k < length (entries L)"
  shows "map tx_of (entries L)
           = Array_sort (\<lambda>a b. cmp (date a) (date b)) (of_party (accountName L) T) \<and>
         balance (entries L ! k) =
           foldl (+) 0 (map signed_amount (take (Suc k) (map tx_of (entries L))))"
proof -
  let ?p = "accountName L"
  from assms(1) have L: "L = ledger_of cmp T ?p" by (simp add: ledgers_memD)
  have es: "entries L = fst (map_entries (0, 0, 0) (partyTxs cmp T ?p))"
    by (subst L) (rule entries_ledger_of)
  have txs: "map tx_of (entries L) = partyTxs cmp T ?p"
    by (simp only: es map_entries_tx)
  from assms(2) have k: "k < length (partyTxs cmp T ?p)"
    by (simp add: es map_entries_length)
  have "balance (entries L ! k) =
      foldl (+) 0 (map signed_amount (take (Suc k) (partyTxs cmp T ?p)))"
    unfolding es by (rule map_entries_balance[OF k])
  then have "balance (entries L ! k) =
      foldl (+) 0 (map signed_amount (take (Suc k) (map tx_of (entries L))))"
    by (simp only: txs)
  with entries_are_sorted_party[OF assms(1)] show ?thesis by blast
qed

theorem running_balance_is_prefix_sum_witness:
  "ledgers caseless_compare [jan_posting, feb_posting] ! 0
     \<in> set (ledgers caseless_compare [jan_posting, feb_posting]) \<and>
   1 < length (entries (ledgers caseless_compare [jan_posting, feb_posting] ! 0)) \<and>
   map tx_of (entries (ledgers caseless_compare [jan_posting, feb_posting] ! 0))
     = [feb_posting, jan_posting] \<and>
   balance (entries (ledgers caseless_compare [jan_posting, feb_posting] ! 0) ! 0) = - 150 \<and>
   balance (entries (ledgers caseless_compare [jan_posting, feb_posting] ! 0) ! 1)
     = 0 + (0 - 150) + (100 - 0)"
proof -
  let ?L = "ledgers caseless_compare [jan_posting, feb_posting] ! 0"
  have h1: "?L \<in> set (ledgers caseless_compare [jan_posting, feb_posting])" by code_simp
  have h2: "1 < length (entries ?L)" by code_simp
  have e: "map tx_of (entries ?L) = [feb_posting, jan_posting]" by code_simp
  have b0: "balance (entries ?L ! 0) = - 150" by code_simp
  from running_balance_is_prefix_sum[OF h1 h2]
  have "balance (entries ?L ! 1)
      = foldl (+) 0 (map signed_amount (take (Suc 1) (map tx_of (entries ?L))))"
    by blast
  then have "balance (entries ?L ! 1) = 0 + (0 - 150) + (100 - 0)"
    unfolding e by (simp add: signed_amount_def jan_posting_def feb_posting_def)
  with h1 h2 e b0 show ?thesis by (simp only: simp_thms)
qed

section \<open>The balance labels\<close>

lemma balanceLabel_Dr_iff:
  fixes b :: "'n::{zero,linorder}"
  shows "balanceLabel (isAssetOrExpense a) b = Dr \<longleftrightarrow>
     (a \<in> {Asset, Expense} \<and> b \<ge> 0) \<or> (a \<in> {Liability, Income, Equity} \<and> b < 0)"
  by (cases a) (auto simp: balanceLabel_def isAssetOrExpense_def)

lemma BalanceType_Cr_iff: "t = Cr \<longleftrightarrow> t \<noteq> Dr"
  by (cases t) simp_all

text \<open>
  C2. For every entry of every ledger the derivation returns, \<open>balanceType\<close> is
  \<open>Dr\<close> exactly when the entry's account type is \<open>Asset\<close> or \<open>Expense\<close> and its
  balance is at least \<open>0\<close>, or its account type is \<open>Liability\<close>, \<open>Income\<close> or
  \<open>Equity\<close> and its balance is below \<open>0\<close>; in every other case it is \<open>Cr\<close>.
  The order on amounts is linear here: an amount that is not at least \<open>0\<close> is below
  \<open>0\<close>.
\<close>

theorem balanceType_sign_adjusted:
  fixes T :: "'n::{zero,plus,minus,linorder} Transaction list"
  assumes "L \<in> set (ledgers cmp T)" and "e \<in> set (entries L)"
  shows "(balanceType e = Dr \<longleftrightarrow>
            (accountType e \<in> {Asset, Expense} \<and> balance e \<ge> 0) \<or>
            (accountType e \<in> {Liability, Income, Equity} \<and> balance e < 0)) \<and>
         (balanceType e = Cr \<longleftrightarrow>
            \<not> ((accountType e \<in> {Asset, Expense} \<and> balance e \<ge> 0) \<or>
               (accountType e \<in> {Liability, Income, Equity} \<and> balance e < 0)))"
proof -
  from assms(1) have "L = ledger_of cmp T (accountName L)" by (simp add: ledgers_memD)
  then have "entries L = fst (map_entries (0, 0, 0) (partyTxs cmp T (accountName L)))"
    by (metis entries_ledger_of)
  with assms(2) have "balanceType e = balanceLabel (isAssetOrExpense (accountType e)) (balance e)"
    by (simp add: map_entries_balanceType)
  then show ?thesis
    by (simp only: balanceLabel_Dr_iff BalanceType_Cr_iff simp_thms)
qed

theorem balanceType_sign_adjusted_witness:
  "ledgers codeunit_compare example_txs ! 1 \<in> set (ledgers codeunit_compare example_txs) \<and>
   entries (ledgers codeunit_compare example_txs ! 1) ! 0 \<in> set (entries (ledgers codeunit_compare example_txs ! 1)) \<and>
   accountType (entries (ledgers codeunit_compare example_txs ! 1) ! 0) = Income \<and>
   balance (entries (ledgers codeunit_compare example_txs ! 1) ! 0) = 5000 \<and>
   balanceType (entries (ledgers codeunit_compare example_txs ! 1) ! 0) = Cr"
proof -
  have h1: "ledgers codeunit_compare example_txs ! 1 \<in> set (ledgers codeunit_compare example_txs)" by code_simp
  have h2: "entries (ledgers codeunit_compare example_txs ! 1) ! 0 \<in> set (entries (ledgers codeunit_compare example_txs ! 1))"
    by code_simp
  have a: "accountType (entries (ledgers codeunit_compare example_txs ! 1) ! 0) = Income" by code_simp
  have b: "balance (entries (ledgers codeunit_compare example_txs ! 1) ! 0) = 5000" by code_simp
  from balanceType_sign_adjusted[OF h1 h2]
  have "balanceType (entries (ledgers codeunit_compare example_txs ! 1) ! 0) = Cr"
    unfolding a b by simp
  with h1 h2 a b show ?thesis by (intro conjI)
qed

section \<open>The closing balance\<close>

text \<open>
  C3. In every ledger the derivation returns, whatever comparison of strings the
  host's \<open>localeCompare\<close> is, there is a first entry, the one the sort by date puts
  first; \<open>closingBalance\<close> is the final value of the running accumulator (the sum
  from \<open>0\<close> of all signed amounts, each under its own transaction's account type);
  \<open>closingBalanceType\<close> is the sign-adjusted label of \<open>closingBalance\<close> under the
  account type of that first entry alone; and each entry's balance is the balance
  before it plus the signed amount under that entry's own account type.
\<close>

theorem closing_balance_and_first_type:
  fixes T :: "'n::{zero,plus,minus,linorder} Transaction list"
  assumes "L \<in> set (ledgers cmp T)"
  shows "\<exists>firstEntry rest.
           entries L = firstEntry # rest \<and>
           map tx_of (entries L)
             = Array_sort (\<lambda>a b. cmp (date a) (date b)) (of_party (accountName L) T) \<and>
           closingBalance L = foldl (+) 0 (map signed_amount (map tx_of (entries L))) \<and>
           (closingBalanceType L = Dr \<longleftrightarrow>
              (accountType firstEntry \<in> {Asset, Expense} \<and> closingBalance L \<ge> 0) \<or>
              (accountType firstEntry \<in> {Liability, Income, Equity} \<and> closingBalance L < 0)) \<and>
           (closingBalanceType L = Cr \<longleftrightarrow>
              \<not> ((accountType firstEntry \<in> {Asset, Expense} \<and> closingBalance L \<ge> 0) \<or>
                 (accountType firstEntry \<in> {Liability, Income, Equity} \<and>
                    closingBalance L < 0))) \<and>
           (\<forall>k < length (entries L).
              balance (entries L ! k) =
                (if k = 0 then 0 else balance (entries L ! (k - 1)))
                  + signed_amount (tx_of (entries L ! k)))"
proof -
  let ?p = "accountName L"
  let ?txs = "partyTxs cmp T ?p"
  from assms have L: "L = ledger_of cmp T ?p" and p: "?p \<in> party ` set T"
    by (simp_all add: ledgers_memD)
  have es: "entries L = fst (map_entries (0, 0, 0) ?txs)"
    by (subst L) (rule entries_ledger_of)
  have txs: "map tx_of (entries L) = ?txs"
    by (simp only: es map_entries_tx)
  from partyTxs_nonempty[OF p, of cmp] have "map tx_of (entries L) \<noteq> []"
    unfolding txs .
  then obtain firstEntry rest where fr: "entries L = firstEntry # rest"
    by (cases "entries L") auto
  with txs have hd_txs: "?txs = tx_of firstEntry # map tx_of rest" by simp
  have cb: "closingBalance L = foldl (+) 0 (map signed_amount ?txs)"
    by (subst L) (rule closingBalance_ledger_of)
  have "closingBalanceType L =
      balanceLabel (case ?txs of [] \<Rightarrow> False | tx # _ \<Rightarrow> isAssetOrExpense (accountType tx))
        (closingBalance L)"
    by (subst (1 3) L) (rule closingBalanceType_ledger_of)
  then have cbt: "closingBalanceType L =
      balanceLabel (isAssetOrExpense (accountType firstEntry)) (closingBalance L)"
    by (simp add: hd_txs accountType_tx_of)
  have step: "balance (entries L ! k) =
      (if k = 0 then 0 else balance (entries L ! (k - 1))) + signed_amount (tx_of (entries L ! k))"
    if "k < length (entries L)" for k
  proof -
    from that have k: "k < length ?txs" by (simp add: es map_entries_length)
    have nth: "tx_of (entries L ! k) = ?txs ! k"
      using that by (simp flip: txs)
    have bk: "balance (entries L ! k) = foldl (+) 0 (map signed_amount (take (Suc k) ?txs))"
      unfolding es by (rule map_entries_balance[OF k])
    show ?thesis
    proof (cases k)
      case 0
      with k bk nth show ?thesis by (simp add: take_Suc_conv_app_nth)
    next
      case (Suc j)
      with k have j: "j < length ?txs" by simp
      have "balance (entries L ! j) = foldl (+) 0 (map signed_amount (take (Suc j) ?txs))"
        unfolding es by (rule map_entries_balance[OF j])
      with bk k Suc nth show ?thesis
        by (simp add: take_Suc_conv_app_nth[of "Suc j"])
    qed
  qed
  show ?thesis
    apply (rule exI[of _ firstEntry], rule exI[of _ rest])
    apply (intro conjI)
         apply (rule fr)
        apply (rule entries_are_sorted_party[OF assms])
       apply (simp only: cb txs)
      apply (simp only: cbt balanceLabel_Dr_iff)
     apply (simp only: cbt balanceLabel_Dr_iff BalanceType_Cr_iff simp_thms)
    using step apply blast
    done
qed

theorem closing_balance_and_first_type_witness:
  "ledgers caseless_compare [jan_asset, feb_income] ! 0
     \<in> set (ledgers caseless_compare [jan_asset, feb_income]) \<and>
   map tx_of (entries (ledgers caseless_compare [jan_asset, feb_income] ! 0))
     = [feb_income, jan_asset] \<and>
   map accountType (entries (ledgers caseless_compare [jan_asset, feb_income] ! 0))
     = [Income, Asset] \<and>
   closingBalance (ledgers caseless_compare [jan_asset, feb_income] ! 0) = 150 \<and>
   closingBalanceType (ledgers caseless_compare [jan_asset, feb_income] ! 0) = Cr \<and>
   balanceType (last (entries (ledgers caseless_compare [jan_asset, feb_income] ! 0))) = Dr"
proof -
  let ?L = "ledgers caseless_compare [jan_asset, feb_income] ! 0"
  have h: "?L \<in> set (ledgers caseless_compare [jan_asset, feb_income])" by code_simp
  have e: "map tx_of (entries ?L) = [feb_income, jan_asset]" by code_simp
  have t: "map accountType (entries ?L) = [Income, Asset]" by code_simp
  have c: "closingBalance ?L = 150" by code_simp
  have l: "balanceType (last (entries ?L)) = Dr" by code_simp
  from closing_balance_and_first_type[OF h] obtain firstEntry rest where
    f: "entries ?L = firstEntry # rest" and
    r: "closingBalanceType ?L = Cr \<longleftrightarrow>
          \<not> ((accountType firstEntry \<in> {Asset, Expense} \<and> closingBalance ?L \<ge> 0) \<or>
             (accountType firstEntry \<in> {Liability, Income, Equity} \<and> closingBalance ?L < 0))"
    by blast
  from f t have "accountType firstEntry = Income" by simp
  with r have "closingBalanceType ?L = Cr" unfolding c by simp
  with h e t c l show ?thesis by (simp only: simp_thms)
qed

text \<open>
  C8. Every ledger the derivation returns has at least one entry, its
  \<open>closingBalance\<close> is the balance of its last entry, and its \<open>openingBalance\<close>
  is \<open>0\<close>.
\<close>

theorem ledger_nonempty_closing_is_last:
  fixes T :: "'n::{zero,plus,minus,ord} Transaction list"
  assumes "L \<in> set (ledgers cmp T)"
  shows "entries L \<noteq> [] \<and>
         closingBalance L = balance (last (entries L)) \<and>
         openingBalance L = 0"
proof -
  let ?txs = "partyTxs cmp T (accountName L)"
  from assms have L: "L = ledger_of cmp T (accountName L)" and p: "accountName L \<in> party ` set T"
    by (simp_all add: ledgers_memD)
  have es: "entries L = fst (map_entries (0, 0, 0) ?txs)"
    by (subst L) (rule entries_ledger_of)
  have len: "length (entries L) = length ?txs"
    by (simp add: es map_entries_length)
  from partyTxs_nonempty[OF p] have pos: "0 < length ?txs" by simp
  with len have ne: "entries L \<noteq> []" by auto
  from pos have k: "length ?txs - 1 < length ?txs" by simp
  have "balance (last (entries L)) = balance (entries L ! (length ?txs - 1))"
    using ne len by (simp add: last_conv_nth)
  also have "\<dots> = foldl (+) 0 (map signed_amount (take (Suc (length ?txs - 1)) ?txs))"
    unfolding es by (rule map_entries_balance[OF k])
  also have "\<dots> = foldl (+) 0 (map signed_amount ?txs)"
    using pos by simp
  also have "\<dots> = closingBalance L"
    by (subst (2) L) (simp only: closingBalance_ledger_of)
  finally have "closingBalance L = balance (last (entries L))" by simp
  moreover have "openingBalance L = 0"
    by (subst L) (rule openingBalance_ledger_of)
  ultimately show ?thesis using ne by blast
qed

theorem ledger_nonempty_closing_is_last_witness:
  "ledgers codeunit_compare example_txs ! 0 \<in> set (ledgers codeunit_compare example_txs) \<and>
   length (entries (ledgers codeunit_compare example_txs ! 0)) = 2 \<and>
   closingBalance (ledgers codeunit_compare example_txs ! 0) = 600 \<and>
   balance (last (entries (ledgers codeunit_compare example_txs ! 0))) = 600 \<and>
   openingBalance (ledgers codeunit_compare example_txs ! 0) = 0"
proof -
  have h: "ledgers codeunit_compare example_txs ! 0 \<in> set (ledgers codeunit_compare example_txs)" by code_simp
  have n: "length (entries (ledgers codeunit_compare example_txs ! 0)) = 2" by code_simp
  have c: "closingBalance (ledgers codeunit_compare example_txs ! 0) = 600" by code_simp
  from ledger_nonempty_closing_is_last[OF h] c
  have "balance (last (entries (ledgers codeunit_compare example_txs ! 0))) = 600"
    and "openingBalance (ledgers codeunit_compare example_txs ! 0) = 0"
    by simp_all
  with h n c show ?thesis by (simp only: simp_thms)
qed

section \<open>The order of the entries\<close>

text \<open>
  C5. When the host's \<open>localeCompare\<close> is a consistent comparison function, the
  entries of every ledger the derivation returns are in ascending order of their
  dates under \<open>localeCompare\<close>, and for every date the entries with that date are,
  in the same order, the party's input transactions with that date (the sort is
  stable).
\<close>

theorem entries_sorted_by_localeCompare_stable:
  fixes T :: "'n::{zero,plus,minus,ord} Transaction list"
  assumes "consistent_comparator cmp" and "L \<in> set (ledgers cmp T)"
  shows "sorted_wrt (\<lambda>a b. cmp (date a) (date b) \<le> 0) (entries L) \<and>
         (\<forall>d. filter (\<lambda>t. date t = d) (map tx_of (entries L))
                = filter (\<lambda>t. date t = d) (of_party (accountName L) T))"
proof -
  let ?c = "\<lambda>a b :: 'n Transaction. cmp (date a) (date b)"
  have txs: "map tx_of (entries L) = Array_sort ?c (of_party (accountName L) T)"
    by (rule entries_are_sorted_party[OF assms(2)])
  have total: "?c a b \<le> 0 \<or> ?c b a \<le> 0" for a b
    by (rule consistent_total[OF assms(1)])
  have trans: "?c a b \<le> 0 \<Longrightarrow> ?c b d \<le> 0 \<Longrightarrow> ?c a d \<le> 0" for a b d
    by (rule consistent_trans[OF assms(1)])
  have "sorted_wrt (\<lambda>a b. ?c a b \<le> 0) (Array_sort ?c (of_party (accountName L) T))"
    using total trans by (rule sorted_wrt_Array_sort)
  then have "sorted_wrt (\<lambda>a b. ?c a b \<le> 0) (map tx_of (entries L))"
    by (simp only: txs)
  then have "sorted_wrt (\<lambda>a b. cmp (date a) (date b) \<le> 0) (entries L)"
    by (simp add: sorted_wrt_map date_tx_of)
  moreover have "filter (\<lambda>t. date t = d) (map tx_of (entries L))
      = filter (\<lambda>t. date t = d) (of_party (accountName L) T)" for d
    unfolding txs
    by (rule filter_Array_sort) (simp add: consistent_refl[OF assms(1)])
  ultimately show ?thesis by blast
qed

theorem entries_sorted_by_localeCompare_stable_witness:
  "ledgers caseless_compare [jan_posting, feb_posting] ! 0
     \<in> set (ledgers caseless_compare [jan_posting, feb_posting]) \<and>
   map tx_of (entries (ledgers caseless_compare [jan_posting, feb_posting] ! 0))
     = [feb_posting, jan_posting] \<and>
   caseless_compare (date feb_posting) (date jan_posting) = - 1 \<and>
   sorted_wrt (\<lambda>a b. caseless_compare (date a) (date b) \<le> 0)
     (entries (ledgers caseless_compare [jan_posting, feb_posting] ! 0))"
proof -
  have c: "consistent_comparator caseless_compare"
    unfolding caseless_compare_def by (rule consistent_compare_by)
  have h: "ledgers caseless_compare [jan_posting, feb_posting] ! 0
      \<in> set (ledgers caseless_compare [jan_posting, feb_posting])" by code_simp
  have e: "map tx_of (entries (ledgers caseless_compare [jan_posting, feb_posting] ! 0))
      = [feb_posting, jan_posting]" by code_simp
  have o: "caseless_compare (date feb_posting) (date jan_posting) = - 1" by code_simp
  from entries_sorted_by_localeCompare_stable[OF c h]
  have "sorted_wrt (\<lambda>a b. caseless_compare (date a) (date b) \<le> 0)
     (entries (ledgers caseless_compare [jan_posting, feb_posting] ! 0))" by blast
  with h e o show ?thesis by (simp only: simp_thms)
qed

lemma later_date_sorts_first:
  assumes "cmp (date x) (date y) > 0" and "party x = p" and "party y = p"
  shows "partyTxs cmp [x, y] p = [y, x]"
  using assms by (simp add: partyTxs_def Array_sort_def)

text \<open>
  The order is that of \<open>localeCompare\<close> and not that of the character codes: under
  a comparison that ranks letters without regard to case, a posting dated
  \<open>1 feb 2024\<close> comes before one dated \<open>1 Jan 2024\<close>, and the dates of the ledger do
  not ascend in the order of \<open><\<close> on strings. By the lemma above, every
  comparison that puts \<open>1 Jan 2024\<close> after \<open>1 feb 2024\<close> gives this order.
\<close>

theorem entries_not_sorted_by_code_units:
  "map date (entries (ledgers caseless_compare [jan_posting, feb_posting] ! 0))
     = [''1 feb 2024'', ''1 Jan 2024''] \<and>
   \<not> sorted (map date (entries (ledgers caseless_compare [jan_posting, feb_posting] ! 0)))"
proof -
  have e: "map date (entries (ledgers caseless_compare [jan_posting, feb_posting] ! 0))
     = [''1 feb 2024'', ''1 Jan 2024'']" by code_simp
  have "\<not> sorted [''1 feb 2024'', ''1 Jan 2024'' :: string]" by code_simp
  with e show ?thesis by (simp only: simp_thms)
qed

section \<open>One ledger per party\<close>

lemma sum_list_filter_mset_keys:
  "distinct ps \<Longrightarrow>
     (\<Sum>p\<leftarrow>ps. filter_mset (\<lambda>t. f t = p) M) = filter_mset (\<lambda>t. f t \<in> set ps) M"
proof (induction ps)
  case Nil
  show ?case by simp
next
  case (Cons p ps)
  then have "filter_mset (\<lambda>t. f t = p) M + filter_mset (\<lambda>t. f t \<in> set ps) M
      = filter_mset (\<lambda>t. f t \<in> set (p # ps)) M"
    by (intro multiset_eqI) auto
  with Cons show ?case by simp
qed

lemma mset_concat_partyTxs:
  "distinct ps \<Longrightarrow>
     mset (concat (map (partyTxs cmp T) ps)) = filter_mset (\<lambda>t. party t \<in> set ps) (mset T)"
proof -
  assume d: "distinct ps"
  have "mset (concat (map (partyTxs cmp T) ps)) = (\<Sum>p\<leftarrow>ps. mset (partyTxs cmp T p))"
    by (simp add: mset_concat comp_def)
  also have "\<dots> = (\<Sum>p\<leftarrow>ps. filter_mset (\<lambda>t. party t = p) (mset T))"
    by (simp add: mset_partyTxs of_party_def)
  also have "\<dots> = filter_mset (\<lambda>t. party t \<in> set ps) (mset T)"
    by (rule sum_list_filter_mset_keys[OF d])
  finally show ?thesis .
qed

lemma txs_ledgers_nth:
  "i < length (ledgers cmp T) \<Longrightarrow>
     tx_of ` set (entries (ledgers cmp T ! i))
       = {t \<in> set T. party t = accountName (ledgers cmp T ! i)}"
proof -
  assume i: "i < length (ledgers cmp T)"
  let ?p = "Array_from_Set (map party T) ! i"
  have "tx_of ` set (entries (ledger_of cmp T ?p)) = set (map tx_of (entries (ledger_of cmp T ?p)))"
    by simp
  also have "\<dots> = {t \<in> set T. party t = ?p}"
    by (simp only: txs_ledger_of set_partyTxs)
  finally show ?thesis
    by (simp only: ledgers_nth[OF i] accountName_ledger_of)
qed

text \<open>
  C4. The transactions carried by the entries of all ledgers, taken together as a
  multiset, are the input transactions; a transaction of the input is among the
  transactions of a ledger exactly when that ledger's \<open>accountName\<close> is its party;
  and every transaction of the input is in exactly one ledger of the output.
\<close>

theorem ledgers_partition_transactions:
  fixes T :: "'n::{zero,plus,minus,ord} Transaction list"
  shows "mset (concat (map (\<lambda>L. map tx_of (entries L)) (ledgers cmp T))) = mset T \<and>
         (\<forall>t\<in>set T. \<forall>i<length (ledgers cmp T).
            t \<in> tx_of ` set (entries (ledgers cmp T ! i))
              \<longleftrightarrow> accountName (ledgers cmp T ! i) = party t) \<and>
         (\<forall>t\<in>set T. \<exists>!i. i < length (ledgers cmp T) \<and>
            t \<in> tx_of ` set (entries (ledgers cmp T ! i)))"
proof (intro conjI ballI allI impI)
  let ?ps = "Array_from_Set (map party T)"
  have "map (\<lambda>L. map tx_of (entries L)) (ledgers cmp T) = map (partyTxs cmp T) ?ps"
    by (simp add: ledgers_def comp_def txs_ledger_of)
  then have "mset (concat (map (\<lambda>L. map tx_of (entries L)) (ledgers cmp T)))
      = filter_mset (\<lambda>t. party t \<in> set ?ps) (mset T)"
    by (simp only: mset_concat_partyTxs[OF distinct_Array_from_Set])
  also have "\<dots> = mset T"
    by (rule filter_mset_eq_conv[THEN iffD2]) (auto simp add: set_Array_from_Set)
  finally show "mset (concat (map (\<lambda>L. map tx_of (entries L)) (ledgers cmp T))) = mset T" .
next
  fix t i
  assume "t \<in> set T" and "i < length (ledgers cmp T)"
  then show "t \<in> tx_of ` set (entries (ledgers cmp T ! i))
      \<longleftrightarrow> accountName (ledgers cmp T ! i) = party t"
    by (auto simp add: txs_ledgers_nth)
next
  fix t
  assume t: "t \<in> set T"
  let ?names = "map accountName (ledgers cmp T)"
  have d: "distinct ?names"
    by (simp only: ledgers_names distinct_Array_from_Set)
  from t have "party t \<in> set ?names"
    by (simp only: ledgers_names set_Array_from_Set) simp
  then obtain i where i: "i < length (ledgers cmp T)" "accountName (ledgers cmp T ! i) = party t"
    by (auto simp add: in_set_conv_nth)
  show "\<exists>!i. i < length (ledgers cmp T) \<and> t \<in> tx_of ` set (entries (ledgers cmp T ! i))"
  proof (rule ex1I[of _ i])
    from i t show "i < length (ledgers cmp T) \<and> t \<in> tx_of ` set (entries (ledgers cmp T ! i))"
      by (simp add: txs_ledgers_nth)
  next
    fix j
    assume "j < length (ledgers cmp T) \<and> t \<in> tx_of ` set (entries (ledgers cmp T ! j))"
    then have j: "j < length (ledgers cmp T)" "accountName (ledgers cmp T ! j) = party t"
      using txs_ledgers_nth[of j cmp T] by auto
    with i have "?names ! j = ?names ! i" by simp
    moreover from i j have "i < length ?names" "j < length ?names" by simp_all
    ultimately show "j = i" using d by (simp only: nth_eq_iff_index_eq)
  qed
qed

theorem ledgers_partition_transactions_witness:
  "mset (concat (map (\<lambda>L. map tx_of (entries L)) (ledgers codeunit_compare example_txs))) = mset example_txs \<and>
   abc_invoice \<in> set example_txs \<and>
   (0::nat) < length (ledgers codeunit_compare example_txs) \<and>
   accountName (ledgers codeunit_compare example_txs ! 0) = party abc_invoice \<and>
   abc_invoice \<in> tx_of ` set (entries (ledgers codeunit_compare example_txs ! 0))"
proof -
  have t: "abc_invoice \<in> set example_txs" by code_simp
  have i: "(0::nat) < length (ledgers codeunit_compare example_txs)" by code_simp
  have n: "accountName (ledgers codeunit_compare example_txs ! 0) = party abc_invoice" by code_simp
  from ledgers_partition_transactions[of codeunit_compare example_txs] t i n
  show ?thesis by blast
qed

text \<open>
  C6. The account names of the output are pairwise different and are exactly the
  parties of the input, so the output has one ledger per distinct party; ledgers
  are listed by the position of their party's first occurrence in the input; the
  output is empty exactly when the input is; and every ledger has as many entries
  as the input has transactions of its party.
\<close>

theorem one_ledger_per_party_first_seen:
  fixes T :: "'n::{zero,plus,minus,ord} Transaction list"
  shows "distinct (map accountName (ledgers cmp T)) \<and>
         set (map accountName (ledgers cmp T)) = party ` set T \<and>
         length (ledgers cmp T) = card (party ` set T) \<and>
         (\<forall>i j. i < j \<and> j < length (ledgers cmp T) \<longrightarrow>
            first_index (map party T) (accountName (ledgers cmp T ! i))
              < first_index (map party T) (accountName (ledgers cmp T ! j))) \<and>
         (ledgers cmp T = [] \<longleftrightarrow> T = []) \<and>
         (\<forall>L\<in>set (ledgers cmp T). length (entries L) = length (of_party (accountName L) T))"
proof (intro conjI ballI allI impI)
  let ?names = "map accountName (ledgers cmp T)"
  show d: "distinct ?names"
    by (simp only: ledgers_names distinct_Array_from_Set)
  show s: "set ?names = party ` set T"
    by (simp only: ledgers_names set_Array_from_Set) simp
  from distinct_card[OF d] s show "length (ledgers cmp T) = card (party ` set T)"
    by simp
  show "ledgers cmp T = [] \<longleftrightarrow> T = []"
  proof
    assume "ledgers cmp T = []"
    then have "set ?names = {}" by simp
    with s show "T = []" by simp
  next
    assume "T = []"
    then show "ledgers cmp T = []" by (simp add: ledgers_def Array_from_Set_Nil)
  qed
next
  fix i j
  assume ij: "i < j \<and> j < length (ledgers cmp T)"
  let ?names = "map accountName (ledgers cmp T)"
  have "sorted_wrt (\<lambda>p q. first_index (map party T) p < first_index (map party T) q) ?names"
    by (simp only: ledgers_names Array_from_Set_order)
  with ij have "first_index (map party T) (?names ! i) < first_index (map party T) (?names ! j)"
    by (simp add: sorted_wrt_iff_nth_less)
  with ij show "first_index (map party T) (accountName (ledgers cmp T ! i))
      < first_index (map party T) (accountName (ledgers cmp T ! j))"
    by simp
next
  fix L
  assume "L \<in> set (ledgers cmp T)"
  then have L: "L = ledger_of cmp T (accountName L)" by (simp add: ledgers_memD)
  have "length (entries L) = length (partyTxs cmp T (accountName L))"
    by (subst L) (simp only: entries_ledger_of map_entries_length)
  then show "length (entries L) = length (of_party (accountName L) T)"
    by (simp only: length_partyTxs)
qed

theorem one_ledger_per_party_first_seen_witness:
  "map party example_txs
     = [''ABC Traders'', ''Sales Revenue'', ''ABC Traders'', ''Mixed'', ''Mixed''] \<and>
   map accountName (ledgers codeunit_compare example_txs) = [''ABC Traders'', ''Sales Revenue'', ''Mixed''] \<and>
   map (\<lambda>L. length (entries L)) (ledgers codeunit_compare example_txs) = [2, 1, 2] \<and>
   length (ledgers codeunit_compare example_txs) = card (party ` set example_txs) \<and>
   first_index (map party example_txs) (accountName (ledgers codeunit_compare example_txs ! 1))
     < first_index (map party example_txs) (accountName (ledgers codeunit_compare example_txs ! 2))"
proof -
  have p: "map party example_txs
      = [''ABC Traders'', ''Sales Revenue'', ''ABC Traders'', ''Mixed'', ''Mixed'']"
    by code_simp
  have n: "map accountName (ledgers codeunit_compare example_txs) = [''ABC Traders'', ''Sales Revenue'', ''Mixed'']"
    by code_simp
  have e: "map (\<lambda>L. length (entries L)) (ledgers codeunit_compare example_txs) = [2, 1, 2]"
    by code_simp
  have j: "(1::nat) < 2 \<and> 2 < length (ledgers codeunit_compare example_txs)" by code_simp
  from one_ledger_per_party_first_seen[of codeunit_compare example_txs] j
  have "length (ledgers codeunit_compare example_txs) = card (party ` set example_txs)"
    and "first_index (map party example_txs) (accountName (ledgers codeunit_compare example_txs ! 1))
          < first_index (map party example_txs) (accountName (ledgers codeunit_compare example_txs ! 2))"
    by blast+
  with p n e show ?thesis by (simp only: simp_thms)
qed

section \<open>Rounding\<close>

lemma bit_length_0: "bit_length 0 = 0"
  by (simp add: bit_length.simps)

lemma bit_length_twice: "0 < n \<Longrightarrow> bit_length (2 * n) = Suc (bit_length n)"
  by (subst bit_length.simps) simp

lemma bit_length_mult_pow2: "0 < n \<Longrightarrow> bit_length (n * 2 ^ k) = bit_length n + k"
proof (induction k)
  case 0
  show ?case by simp
next
  case (Suc k)
  then have "bit_length (2 * (n * 2 ^ k)) = Suc (bit_length (n * 2 ^ k))"
    by (intro bit_length_twice) simp
  with Suc show ?case by (simp add: mult.assoc mult.left_commute)
qed

lemma bit_length_le: "n < 2 ^ b \<Longrightarrow> bit_length n \<le> b"
proof (induction b arbitrary: n)
  case 0
  then show ?case by (simp add: bit_length_0)
next
  case (Suc b)
  show ?case
  proof (cases "n = 0")
    case True
    then show ?thesis by (simp add: bit_length_0)
  next
    case False
    from Suc.prems have "n div 2 < 2 ^ b" by simp
    then have "bit_length (n div 2) \<le> b" by (rule Suc.IH)
    with False show ?thesis by (subst bit_length.simps) simp
  qed
qed

lemma round53_exact: "bit_length (nat \<bar>n\<bar>) \<le> 53 \<Longrightarrow> round53 n = n"
  by (simp add: round53_def)

lemma round53_small: "\<bar>n\<bar> < 2 ^ 53 \<Longrightarrow> round53 n = n"
proof (rule round53_exact, rule bit_length_le)
  assume "\<bar>n\<bar> < 2 ^ 53"
  then have "int (nat \<bar>n\<bar>) < int (2 ^ 53)" by simp
  then show "nat \<bar>n\<bar> < 2 ^ 53" by (simp only: of_nat_less_iff)
qed

lemma nat_abs_scale: "nat \<bar>m * 2 ^ k\<bar> = nat \<bar>m\<bar> * 2 ^ k"
  by (simp add: abs_mult nat_mult_distrib nat_power_eq)

lemma round53_scale: "round53 (m * 2 ^ k) = round53 m * 2 ^ k"
proof (cases "m = 0")
  case True
  then show ?thesis by (simp add: round53_def bit_length_0)
next
  case False
  then have pos: "0 < nat \<bar>m\<bar>" by simp
  define bl where "bl = bit_length (nat \<bar>m\<bar>)"
  have bln: "bit_length (nat \<bar>m * 2 ^ k\<bar>) = bl + k"
    unfolding nat_abs_scale bl_def by (rule bit_length_mult_pow2[OF pos])
  show ?thesis
  proof (cases "bl \<le> 53")
    case small: True
    then have rm: "round53 m = m" unfolding bl_def by (rule round53_exact)
    show ?thesis
    proof (cases "bl + k \<le> 53")
      case True
      then have "round53 (m * 2 ^ k) = m * 2 ^ k"
        by (intro round53_exact) (simp only: bln)
      with rm show ?thesis by simp
    next
      case False
      define s where "s = bl + k - 53"
      from False small have s: "0 < s" "s \<le> k" unfolding s_def by simp_all
      then have split: "(2::int) ^ k = 2 ^ (k - s) * 2 ^ s"
        by (simp flip: power_add)
      have dv: "(m * 2 ^ k) div 2 ^ s = m * 2 ^ (k - s)" and md: "(m * 2 ^ k) mod 2 ^ s = 0"
        unfolding split by (simp_all flip: mult.assoc)
      have "(0::int) < 2 ^ s" by simp
      with False have "round53 (m * 2 ^ k) = m * 2 ^ (k - s) * 2 ^ s"
        unfolding round53_def bln Let_def
        by (simp add: dv md flip: s_def)
      then show ?thesis
        unfolding rm by (simp add: split mult.assoc)
    qed
  next
    case big: False
    define s where "s = bl - 53"
    from big have s: "0 < s" "bl + k - 53 = s + k" unfolding s_def by simp_all
    have u: "(2::int) ^ (s + k) = 2 ^ s * 2 ^ k" by (simp add: power_add)
    have dv: "(m * 2 ^ k) div (2 ^ s * 2 ^ k) = m div 2 ^ s"
      by simp
    have md: "(m * 2 ^ k) mod (2 ^ s * 2 ^ k) = (m mod 2 ^ s) * 2 ^ k"
      by simp
    have lt: "2 * ((m mod 2 ^ s) * 2 ^ k) < 2 ^ s * (2::int) ^ k \<longleftrightarrow> 2 * (m mod 2 ^ s) < 2 ^ s"
      by (simp flip: mult.assoc)
    have eq: "2 * ((m mod 2 ^ s) * 2 ^ k) = 2 ^ s * (2::int) ^ k \<longleftrightarrow> 2 * (m mod 2 ^ s) = 2 ^ s"
      by (simp flip: mult.assoc)
    from big have nb: "\<not> bl + k \<le> 53" by simp
    have "round53 (m * 2 ^ k)
        = (if 2 * (m mod 2 ^ s) < 2 ^ s \<or> (2 * (m mod 2 ^ s) = 2 ^ s \<and> even (m div 2 ^ s))
           then m div 2 ^ s else m div 2 ^ s + 1) * (2 ^ s * 2 ^ k)"
      unfolding round53_def bln Let_def s(2) u dv md lt eq using nb by simp
    moreover have "round53 m
        = (if 2 * (m mod 2 ^ s) < 2 ^ s \<or> (2 * (m mod 2 ^ s) = 2 ^ s \<and> even (m div 2 ^ s))
           then m div 2 ^ s else m div 2 ^ s + 1) * 2 ^ s"
      unfolding round53_def Let_def using big by (simp flip: bl_def s_def)
    ultimately show ?thesis by (simp add: mult.assoc)
  qed
qed

lemma dyadic_plus: "dyadic a e + dyadic b e = dyadic (round53 (a + b)) e"
  by (simp add: dyadic_def round53_scale flip: distrib_right)

lemma dyadic_minus: "dyadic a e - dyadic b e = dyadic (round53 (a - b)) e"
  by (simp add: dyadic_def round53_scale flip: left_diff_distrib)

lemma dyadic_eq_iff: "dyadic a e = dyadic b e \<longleftrightarrow> a = b"
  by (simp add: dyadic_def)

lemma zero_dyadic: "0 = dyadic 0 e"
  by (simp add: dyadic_def zero_double_def)

lemma double_of_int_plus:
  "\<bar>i + j\<bar> < 2 ^ 53 \<Longrightarrow> double_of_int i + double_of_int j = double_of_int (i + j)"
  by (simp add: double_of_int_def round53_scale round53_small flip: distrib_right)

lemma double_of_int_minus:
  "\<bar>i - j\<bar> < 2 ^ 53 \<Longrightarrow> double_of_int i - double_of_int j = double_of_int (i - j)"
  by (simp add: double_of_int_def round53_scale round53_small flip: left_diff_distrib)

lemma zero_double_of_int: "0 = double_of_int 0"
  by (simp add: double_of_int_def zero_double_def)

lemma double_of_whole: "is_whole d \<Longrightarrow> double_of_int (whole_of d) = d"
  by (cases d) (simp add: double_of_int_def)

lemma whole_of_double_of_int: "whole_of (double_of_int i) = i"
  by (simp add: double_of_int_def)

lemma is_whole_double_of_int: "is_whole (double_of_int i)"
  by (simp add: double_of_int_def)

lemma is_whole_zero: "is_whole 0"
  by (simp add: zero_double_def)

lemma whole_of_zero: "whole_of 0 = 0"
  by (simp add: zero_double_def)

section \<open>The totals\<close>

lemma singleton_of_distinct: "distinct xs \<Longrightarrow> set xs = {x} \<Longrightarrow> xs = [x]"
proof (cases xs)
  case Nil
  assume "set xs = {x}"
  with Nil show ?thesis by simp
next
  case (Cons y ys)
  assume d: "distinct xs" and s: "set xs = {x}"
  from s Cons have "y = x" "set ys \<subseteq> {x}" by auto
  moreover from d Cons have "y \<notin> set ys" by simp
  ultimately have "\<forall>z. z \<notin> set ys" by blast
  then have "ys = []" by (cases ys) auto
  with Cons \<open>y = x\<close> show ?thesis by simp
qed

lemma ledgers_single_party:
  assumes "T \<noteq> []" and "\<forall>t\<in>set T. party t = p"
  shows "ledgers cmp T = [ledger_of cmp T p]"
proof -
  from assms have "set (map party T) = {p}" by (cases T) auto
  then have "set (Array_from_Set (map party T)) = {p}"
    by (simp only: set_Array_from_Set)
  with distinct_Array_from_Set have "Array_from_Set (map party T) = [p]"
    by (rule singleton_of_distinct)
  then show ?thesis by (simp add: ledgers_def)
qed

lemma sum_list_partyTxs:
  fixes f :: "'n Transaction \<Rightarrow> int"
  shows "sum_list (map f (partyTxs cmp T p)) = sum_list (map f (of_party p T))"
proof -
  have "mset (map f (partyTxs cmp T p)) = mset (map f (of_party p T))"
    by (simp add: mset_partyTxs)
  then show ?thesis by (metis sum_mset_sum_list)
qed

lemma foldl_double_of_int:
  "\<bar>a\<bar> + (\<Sum>k\<leftarrow>ks. \<bar>k\<bar>) < 2 ^ 53 \<Longrightarrow>
     foldl (+) (double_of_int a) (map double_of_int ks) = double_of_int (a + sum_list ks)"
proof (induction ks arbitrary: a)
  case Nil
  show ?case by simp
next
  case (Cons k ks)
  have "0 \<le> (\<Sum>k\<leftarrow>ks. \<bar>k\<bar>)" by (rule sum_list_nonneg) auto
  with Cons.prems have "\<bar>a + k\<bar> < 2 ^ 53" and "\<bar>a + k\<bar> + (\<Sum>k\<leftarrow>ks. \<bar>k\<bar>) < 2 ^ 53"
    by simp_all
  with Cons.IH[of "a + k"] show ?case
    by (simp add: double_of_int_plus add.assoc)
qed

lemma map_double_of_whole:
  "\<forall>t\<in>set txs. is_whole (f t) \<Longrightarrow> map f txs = map double_of_int (map (\<lambda>t. whole_of (f t)) txs)"
  by (induction txs) (simp_all add: double_of_whole)

lemma total_of_whole_amounts:
  fixes T :: "double Transaction list"
  assumes whole: "\<forall>t\<in>set (of_party p T). is_whole (f t)"
    and bound: "(\<Sum>t\<leftarrow>of_party p T. \<bar>whole_of (f t)\<bar>) < 2 ^ 53"
  shows "foldl (+) 0 (map f (partyTxs cmp T p))
    = double_of_int (\<Sum>t\<leftarrow>of_party p T. whole_of (f t))"
proof -
  let ?txs = "partyTxs cmp T p"
  let ?w = "\<lambda>t. whole_of (f t)"
  from whole have w: "\<forall>t\<in>set ?txs. is_whole (f t)"
    by (simp add: set_partyTxs of_party_def)
  have b: "\<bar>0\<bar> + (\<Sum>k\<leftarrow>map ?w ?txs. \<bar>k\<bar>) < 2 ^ 53"
    using bound sum_list_partyTxs[of "\<lambda>t. \<bar>?w t\<bar>" cmp T p] by (simp add: comp_def)
  have "foldl (+) 0 (map f ?txs) = foldl (+) (double_of_int 0) (map double_of_int (map ?w ?txs))"
    using map_double_of_whole[OF w] by (simp only: zero_double_of_int)
  also have "\<dots> = double_of_int (0 + sum_list (map ?w ?txs))"
    by (rule foldl_double_of_int[OF b])
  also have "\<dots> = double_of_int (\<Sum>t\<leftarrow>of_party p T. ?w t)"
    by (simp add: sum_list_partyTxs)
  finally show ?thesis .
qed

lemma totals_whole_order_independent:
  fixes T :: "double Transaction list"
  assumes "L \<in> set (ledgers cmp T)"
    and "\<forall>t\<in>set (of_party (accountName L) T). is_whole (debit t) \<and> is_whole (credit t)"
    and "(\<Sum>t\<leftarrow>of_party (accountName L) T. \<bar>whole_of (debit t)\<bar>) < 2 ^ 53"
    and "(\<Sum>t\<leftarrow>of_party (accountName L) T. \<bar>whole_of (credit t)\<bar>) < 2 ^ 53"
  shows "totalDebit L = double_of_int (\<Sum>t\<leftarrow>of_party (accountName L) T. whole_of (debit t)) \<and>
         totalCredit L = double_of_int (\<Sum>t\<leftarrow>of_party (accountName L) T. whole_of (credit t)) \<and>
         (\<forall>T' cmp' L'.
            mset T' = mset T \<and> L' \<in> set (ledgers cmp' T') \<and> accountName L' = accountName L
            \<longrightarrow> totalDebit L' = totalDebit L \<and> totalCredit L' = totalCredit L)"
proof (intro conjI allI impI)
  let ?p = "accountName L"
  from assms(1) have L: "L = ledger_of cmp T ?p" by (simp add: ledgers_memD)
  have wd: "\<forall>t\<in>set (of_party ?p T). is_whole (debit t)"
    and wc: "\<forall>t\<in>set (of_party ?p T). is_whole (credit t)"
    using assms(2) by simp_all
  show d: "totalDebit L = double_of_int (\<Sum>t\<leftarrow>of_party ?p T. whole_of (debit t))"
    by (subst L) (simp only: totalDebit_ledger_of total_of_whole_amounts[OF wd assms(3)])
  show c: "totalCredit L = double_of_int (\<Sum>t\<leftarrow>of_party ?p T. whole_of (credit t))"
    by (subst L) (simp only: totalCredit_ledger_of total_of_whole_amounts[OF wc assms(4)])
  fix T' :: "double Transaction list" and cmp' L'
  assume a: "mset T' = mset T \<and> L' \<in> set (ledgers cmp' T') \<and> accountName L' = ?p"
  then have L': "L' = ledger_of cmp' T' ?p" using ledgers_memD[of L' cmp' T'] by simp
  from a have m: "mset (of_party ?p T') = mset (of_party ?p T)"
    by (simp add: of_party_def)
  then have s: "set (of_party ?p T') = set (of_party ?p T)" by (rule mset_eq_setD)
  have sums: "(\<Sum>t\<leftarrow>of_party ?p T'. g t) = (\<Sum>t\<leftarrow>of_party ?p T. g t)"
    for g :: "double Transaction \<Rightarrow> int"
  proof -
    have "mset (map g (of_party ?p T')) = mset (map g (of_party ?p T))"
      using m by simp
    then show ?thesis by (metis sum_mset_sum_list)
  qed
  have wd': "\<forall>t\<in>set (of_party ?p T'). is_whole (debit t)"
    and wc': "\<forall>t\<in>set (of_party ?p T'). is_whole (credit t)"
    using wd wc s by simp_all
  have bd': "(\<Sum>t\<leftarrow>of_party ?p T'. \<bar>whole_of (debit t)\<bar>) < 2 ^ 53"
    and bc': "(\<Sum>t\<leftarrow>of_party ?p T'. \<bar>whole_of (credit t)\<bar>) < 2 ^ 53"
    using assms(3,4) by (simp_all only: sums)
  have "totalDebit L' = double_of_int (\<Sum>t\<leftarrow>of_party ?p T'. whole_of (debit t))"
    by (subst L') (simp only: totalDebit_ledger_of total_of_whole_amounts[OF wd' bd'])
  with d show "totalDebit L' = totalDebit L" by (simp only: sums)
  have "totalCredit L' = double_of_int (\<Sum>t\<leftarrow>of_party ?p T'. whole_of (credit t))"
    by (subst L') (simp only: totalCredit_ledger_of total_of_whole_amounts[OF wc' bc'])
  with c show "totalCredit L' = totalCredit L" by (simp only: sums)
qed

lemmas posting_defs = posting_def debit_1_def debit_2_def debit_3_def
  paid_in_def paid_out_1_def paid_out_2_def whole_in_def whole_out_def

lemmas round53_eval = round53_def Let_def bit_length.simps

lemma compare_same: "codeunit_compare d d = 0"
  by (simp add: codeunit_compare_def compare_by_def)

text \<open>
  C7. In the numbers of the host, \<open>totalDebit\<close> and \<open>totalCredit\<close> of every ledger
  are the debit and the credit amounts of its entries added up from \<open>0\<close> in the
  order of the entries. When the debit and credit amounts of the party's
  transactions are whole numbers and the absolute values of the debits, and of the
  credits, add up to less than \<open>2^53\<close>, \<open>totalDebit\<close> is the sum of the party's
  debit amounts and \<open>totalCredit\<close> the sum of its credit amounts, and any
  reordering of the input, under any comparison of dates, gives the party's ledger
  the same two totals.
\<close>

theorem totals_of_whole_amounts:
  fixes T :: "double Transaction list"
  assumes "L \<in> set (ledgers cmp T)"
  shows "totalDebit L = foldl (+) 0 (map debit (map tx_of (entries L))) \<and>
         totalCredit L = foldl (+) 0 (map credit (map tx_of (entries L))) \<and>
         ((\<forall>t\<in>set (of_party (accountName L) T). is_whole (debit t) \<and> is_whole (credit t)) \<and>
          (\<Sum>t\<leftarrow>of_party (accountName L) T. \<bar>whole_of (debit t)\<bar>) < 2 ^ 53 \<and>
          (\<Sum>t\<leftarrow>of_party (accountName L) T. \<bar>whole_of (credit t)\<bar>) < 2 ^ 53 \<longrightarrow>
            totalDebit L
              = double_of_int (\<Sum>t\<leftarrow>of_party (accountName L) T. whole_of (debit t)) \<and>
            totalCredit L
              = double_of_int (\<Sum>t\<leftarrow>of_party (accountName L) T. whole_of (credit t)) \<and>
            (\<forall>T' cmp' L'.
               mset T' = mset T \<and> L' \<in> set (ledgers cmp' T') \<and> accountName L' = accountName L
               \<longrightarrow> totalDebit L' = totalDebit L \<and> totalCredit L' = totalCredit L))"
proof (intro conjI impI)
  from assms have L: "L = ledger_of cmp T (accountName L)" by (simp add: ledgers_memD)
  have txs: "map tx_of (entries L) = partyTxs cmp T (accountName L)"
    by (subst L) (rule txs_ledger_of)
  show "totalDebit L = foldl (+) 0 (map debit (map tx_of (entries L)))"
    unfolding txs by (subst L) (rule totalDebit_ledger_of)
  show "totalCredit L = foldl (+) 0 (map credit (map tx_of (entries L)))"
    unfolding txs by (subst L) (rule totalCredit_ledger_of)
next
  assume "(\<forall>t\<in>set (of_party (accountName L) T). is_whole (debit t) \<and> is_whole (credit t)) \<and>
          (\<Sum>t\<leftarrow>of_party (accountName L) T. \<bar>whole_of (debit t)\<bar>) < 2 ^ 53 \<and>
          (\<Sum>t\<leftarrow>of_party (accountName L) T. \<bar>whole_of (credit t)\<bar>) < 2 ^ 53"
  then have "totalDebit L
        = double_of_int (\<Sum>t\<leftarrow>of_party (accountName L) T. whole_of (debit t)) \<and>
      totalCredit L
        = double_of_int (\<Sum>t\<leftarrow>of_party (accountName L) T. whole_of (credit t)) \<and>
      (\<forall>T' cmp' L'.
         mset T' = mset T \<and> L' \<in> set (ledgers cmp' T') \<and> accountName L' = accountName L
         \<longrightarrow> totalDebit L' = totalDebit L \<and> totalCredit L' = totalCredit L)"
    using totals_whole_order_independent[OF assms] by blast
  then show "totalDebit L
        = double_of_int (\<Sum>t\<leftarrow>of_party (accountName L) T. whole_of (debit t))"
    and "totalCredit L
        = double_of_int (\<Sum>t\<leftarrow>of_party (accountName L) T. whole_of (credit t))"
    and "\<forall>T' cmp' L'.
         mset T' = mset T \<and> L' \<in> set (ledgers cmp' T') \<and> accountName L' = accountName L
         \<longrightarrow> totalDebit L' = totalDebit L \<and> totalCredit L' = totalCredit L"
    by blast+
qed

theorem totals_of_whole_amounts_witness:
  "ledgers codeunit_compare [whole_in, whole_out] ! 0
     \<in> set (ledgers codeunit_compare [whole_in, whole_out]) \<and>
   mset [whole_out, whole_in] = mset [whole_in, whole_out] \<and>
   totalDebit (ledgers codeunit_compare [whole_in, whole_out] ! 0) = double_of_int 1000 \<and>
   totalCredit (ledgers codeunit_compare [whole_in, whole_out] ! 0) = double_of_int 400 \<and>
   totalDebit (ledgers codeunit_compare [whole_out, whole_in] ! 0) = double_of_int 1000 \<and>
   totalCredit (ledgers codeunit_compare [whole_out, whole_in] ! 0) = double_of_int 400"
proof -
  let ?T = "[whole_in, whole_out]" and ?T' = "[whole_out, whole_in]"
  let ?L = "ledgers codeunit_compare ?T ! 0" and ?L' = "ledgers codeunit_compare ?T' ! 0"
  have l: "ledgers codeunit_compare ?T = [ledger_of codeunit_compare ?T ''Cash'']"
    by (rule ledgers_single_party) (simp_all add: posting_defs)
  have l': "ledgers codeunit_compare ?T' = [ledger_of codeunit_compare ?T' ''Cash'']"
    by (rule ledgers_single_party) (simp_all add: posting_defs)
  have h: "?L \<in> set (ledgers codeunit_compare ?T)" by (simp add: l)
  have h': "?L' \<in> set (ledgers codeunit_compare ?T')" by (simp add: l')
  have n: "accountName ?L = ''Cash''" by (simp only: l nth_Cons_0 accountName_ledger_of)
  have n': "accountName ?L' = accountName ?L"
    by (simp only: l l' nth_Cons_0 accountName_ledger_of)
  have m: "mset ?T' = mset ?T" by (simp add: add_mset_commute)
  have op: "of_party ''Cash'' ?T = ?T" by (simp add: of_party_def posting_defs)
  have w: "\<forall>t\<in>set (of_party (accountName ?L) ?T). is_whole (debit t) \<and> is_whole (credit t)"
    unfolding n op by (simp add: posting_defs is_whole_zero is_whole_double_of_int)
  have bd: "(\<Sum>t\<leftarrow>of_party (accountName ?L) ?T. \<bar>whole_of (debit t)\<bar>) < 2 ^ 53"
    unfolding n op by (simp add: posting_defs whole_of_zero whole_of_double_of_int)
  have bc: "(\<Sum>t\<leftarrow>of_party (accountName ?L) ?T. \<bar>whole_of (credit t)\<bar>) < 2 ^ 53"
    unfolding n op by (simp add: posting_defs whole_of_zero whole_of_double_of_int)
  from totals_of_whole_amounts[OF h] w bd bc
  have r: "totalDebit ?L
        = double_of_int (\<Sum>t\<leftarrow>of_party (accountName ?L) ?T. whole_of (debit t)) \<and>
      totalCredit ?L
        = double_of_int (\<Sum>t\<leftarrow>of_party (accountName ?L) ?T. whole_of (credit t)) \<and>
      (\<forall>T' cmp' L'.
         mset T' = mset ?T \<and> L' \<in> set (ledgers cmp' T') \<and> accountName L' = accountName ?L
         \<longrightarrow> totalDebit L' = totalDebit ?L \<and> totalCredit L' = totalCredit ?L)"
    by blast
  from r have d: "totalDebit ?L = double_of_int 1000"
    unfolding n op by (simp add: posting_defs whole_of_zero whole_of_double_of_int)
  from r have c: "totalCredit ?L = double_of_int 400"
    unfolding n op by (simp add: posting_defs whole_of_zero whole_of_double_of_int)
  from r m h' n' have "totalDebit ?L' = totalDebit ?L \<and> totalCredit ?L' = totalCredit ?L"
    by blast
  with h m d c show ?thesis by (simp only: simp_thms)
qed

text \<open>
  Without the restriction to whole amounts the totals depend on the order of the
  input: three debits of one day of \<open>0.1\<close>, \<open>0.2\<close> and \<open>0.3\<close> total
  \<open>0.6000000000000001\<close>, and the same three in the order \<open>0.3\<close>, \<open>0.2\<close>, \<open>0.1\<close>
  total \<open>0.6\<close>.
\<close>

theorem totals_depend_on_input_order:
  "mset [debit_3, debit_2, debit_1] = mset [debit_1, debit_2, debit_3] \<and>
   accountName (ledgers codeunit_compare [debit_1, debit_2, debit_3] ! 0) = ''Cash'' \<and>
   accountName (ledgers codeunit_compare [debit_3, debit_2, debit_1] ! 0) = ''Cash'' \<and>
   totalDebit (ledgers codeunit_compare [debit_1, debit_2, debit_3] ! 0)
     = dyadic 21617278211378384 (- 55) \<and>
   totalDebit (ledgers codeunit_compare [debit_3, debit_2, debit_1] ! 0)
     = dyadic 21617278211378380 (- 55) \<and>
   totalDebit (ledgers codeunit_compare [debit_1, debit_2, debit_3] ! 0)
     \<noteq> totalDebit (ledgers codeunit_compare [debit_3, debit_2, debit_1] ! 0)"
proof -
  let ?T1 = "[debit_1, debit_2, debit_3]" and ?T2 = "[debit_3, debit_2, debit_1]"
  have m: "mset ?T2 = mset ?T1" by (simp add: add_mset_commute)
  have l1: "ledgers codeunit_compare ?T1 = [ledger_of codeunit_compare ?T1 ''Cash'']"
    by (rule ledgers_single_party) (simp_all add: posting_defs)
  have l2: "ledgers codeunit_compare ?T2 = [ledger_of codeunit_compare ?T2 ''Cash'']"
    by (rule ledgers_single_party) (simp_all add: posting_defs)
  have p1: "map debit (partyTxs codeunit_compare ?T1 ''Cash'') = [tenth, two_tenths, three_tenths]"
    by (simp add: partyTxs_def Array_sort_def compare_same posting_defs)
  have p2: "map debit (partyTxs codeunit_compare ?T2 ''Cash'') = [three_tenths, two_tenths, tenth]"
    by (simp add: partyTxs_def Array_sort_def compare_same posting_defs)
  have s1: "foldl (+) 0 [tenth, two_tenths, three_tenths] = dyadic 21617278211378384 (- 55)"
    unfolding tenth_def two_tenths_def three_tenths_def zero_dyadic[of "- 55"]
    by (simp add: dyadic_plus round53_eval)
  have s2: "foldl (+) 0 [three_tenths, two_tenths, tenth] = dyadic 21617278211378380 (- 55)"
    unfolding tenth_def two_tenths_def three_tenths_def zero_dyadic[of "- 55"]
    by (simp add: dyadic_plus round53_eval)
  have t1: "totalDebit (ledgers codeunit_compare ?T1 ! 0) = dyadic 21617278211378384 (- 55)"
    by (simp only: l1 nth_Cons_0 totalDebit_ledger_of p1 s1)
  have t2: "totalDebit (ledgers codeunit_compare ?T2 ! 0) = dyadic 21617278211378380 (- 55)"
    by (simp only: l2 nth_Cons_0 totalDebit_ledger_of p2 s2)
  have n1: "accountName (ledgers codeunit_compare ?T1 ! 0) = ''Cash''"
    by (simp only: l1 nth_Cons_0 accountName_ledger_of)
  have n2: "accountName (ledgers codeunit_compare ?T2 ! 0) = ''Cash''"
    by (simp only: l2 nth_Cons_0 accountName_ledger_of)
  have "totalDebit (ledgers codeunit_compare ?T1 ! 0) \<noteq> totalDebit (ledgers codeunit_compare ?T2 ! 0)"
    unfolding t1 t2 by (simp add: dyadic_eq_iff)
  with m n1 n2 t1 t2 show ?thesis by (simp only: simp_thms)
qed

lemma le_sum_list_nonneg:
  fixes xs :: "int list"
  shows "\<forall>y\<in>set xs. 0 \<le> y \<Longrightarrow> x \<in> set xs \<Longrightarrow> x \<le> sum_list xs"
proof (induction xs)
  case Nil
  then show ?case by simp
next
  case (Cons y ys)
  then have "0 \<le> sum_list ys" by (intro sum_list_nonneg) simp
  with Cons show ?case by auto
qed

lemma fold_differences:
  fixes T :: "double Transaction list"
  assumes wf: "\<forall>t\<in>set (of_party p T). is_whole (f t)"
    and wg: "\<forall>t\<in>set (of_party p T). is_whole (g t)"
    and bound: "(\<Sum>t\<leftarrow>of_party p T. \<bar>whole_of (f t)\<bar> + \<bar>whole_of (g t)\<bar>) < 2 ^ 53"
    and h: "\<forall>t\<in>set (of_party p T). h t = f t - g t"
  shows "foldl (+) 0 (map h (partyTxs cmp T p))
    = foldl (+) 0 (map f (partyTxs cmp T p)) - foldl (+) 0 (map g (partyTxs cmp T p))"
proof -
  let ?P = "of_party p T"
  let ?txs = "partyTxs cmp T p"
  let ?F = "\<lambda>t. whole_of (f t)"
  let ?G = "\<lambda>t. whole_of (g t)"
  let ?B = "\<lambda>t. \<bar>?F t\<bar> + \<bar>?G t\<bar>"
  have set_txs: "set ?txs = set ?P" by (simp add: set_partyTxs of_party_def)
  have bF: "(\<Sum>t\<leftarrow>?P. \<bar>?F t\<bar>) < 2 ^ 53"
  proof -
    have "(\<Sum>t\<leftarrow>?P. \<bar>?F t\<bar>) \<le> (\<Sum>t\<leftarrow>?P. ?B t)" by (rule sum_list_mono) simp
    with bound show ?thesis by simp
  qed
  have bG: "(\<Sum>t\<leftarrow>?P. \<bar>?G t\<bar>) < 2 ^ 53"
  proof -
    have "(\<Sum>t\<leftarrow>?P. \<bar>?G t\<bar>) \<le> (\<Sum>t\<leftarrow>?P. ?B t)" by (rule sum_list_mono) simp
    with bound show ?thesis by simp
  qed
  have bD: "(\<Sum>t\<leftarrow>?P. \<bar>?F t - ?G t\<bar>) < 2 ^ 53"
  proof -
    have "(\<Sum>t\<leftarrow>?P. \<bar>?F t - ?G t\<bar>) \<le> (\<Sum>t\<leftarrow>?P. ?B t)" by (rule sum_list_mono) simp
    with bound show ?thesis by simp
  qed
  have F: "foldl (+) 0 (map f ?txs) = double_of_int (\<Sum>t\<leftarrow>?P. ?F t)"
    by (rule total_of_whole_amounts[OF wf bF])
  have G: "foldl (+) 0 (map g ?txs) = double_of_int (\<Sum>t\<leftarrow>?P. ?G t)"
    by (rule total_of_whole_amounts[OF wg bG])
  have each: "h t = double_of_int (?F t - ?G t)" if t: "t \<in> set ?P" for t
  proof -
    have "?B t \<in> set (map ?B ?P)" using t by simp
    then have "?B t \<le> (\<Sum>t\<leftarrow>?P. ?B t)" by (intro le_sum_list_nonneg) auto
    with bound have "\<bar>?F t - ?G t\<bar> < 2 ^ 53" by simp
    then have "double_of_int (?F t) - double_of_int (?G t) = double_of_int (?F t - ?G t)"
      by (rule double_of_int_minus)
    with t h wf wg show ?thesis by (simp add: double_of_whole)
  qed
  have "map h ?txs = map double_of_int (map (\<lambda>t. ?F t - ?G t) ?txs)"
    using each by (simp add: set_txs)
  moreover have "\<bar>0\<bar> + (\<Sum>k\<leftarrow>map (\<lambda>t. ?F t - ?G t) ?txs. \<bar>k\<bar>) < 2 ^ 53"
    using bD sum_list_partyTxs[of "\<lambda>t. \<bar>?F t - ?G t\<bar>" cmp T p] by (simp add: comp_def)
  ultimately have "foldl (+) 0 (map h ?txs)
      = double_of_int (0 + sum_list (map (\<lambda>t. ?F t - ?G t) ?txs))"
    using foldl_double_of_int[of 0 "map (\<lambda>t. ?F t - ?G t) ?txs"]
    by (simp only: zero_double_of_int)
  also have "\<dots> = double_of_int (\<Sum>t\<leftarrow>?P. ?F t - ?G t)"
    by (simp add: sum_list_partyTxs)
  also have "\<dots> = double_of_int ((\<Sum>t\<leftarrow>?P. ?F t) - (\<Sum>t\<leftarrow>?P. ?G t))"
    by (simp add: sum_list_subtractf)
  also have "\<dots> = double_of_int (\<Sum>t\<leftarrow>?P. ?F t) - double_of_int (\<Sum>t\<leftarrow>?P. ?G t)"
  proof (rule double_of_int_minus[symmetric])
    have "\<bar>(\<Sum>t\<leftarrow>?P. ?F t) - (\<Sum>t\<leftarrow>?P. ?G t)\<bar> = \<bar>\<Sum>t\<leftarrow>?P. ?F t - ?G t\<bar>"
      by (simp add: sum_list_subtractf)
    also have "\<dots> \<le> (\<Sum>t\<leftarrow>?P. \<bar>?F t - ?G t\<bar>)"
      using sum_list_abs[of "map (\<lambda>t. ?F t - ?G t) ?P"] by (simp add: comp_def)
    finally show "\<bar>(\<Sum>t\<leftarrow>?P. ?F t) - (\<Sum>t\<leftarrow>?P. ?G t)\<bar> < 2 ^ 53"
      using bD by simp
  qed
  finally show ?thesis by (simp only: F G)
qed

text \<open>
  C10. In the numbers of the host: when the debit and credit amounts of a party's
  transactions are whole numbers whose absolute values add up to less than
  \<open>2^53\<close>, a ledger all of whose entries have account type \<open>Asset\<close> or \<open>Expense\<close>
  closes at \<open>totalDebit - totalCredit\<close>, and a ledger all of whose entries have
  account type \<open>Liability\<close>, \<open>Income\<close> or \<open>Equity\<close> closes at
  \<open>totalCredit - totalDebit\<close>.
\<close>

theorem closing_balance_of_uniform_whole_ledger:
  fixes T :: "double Transaction list"
  assumes "L \<in> set (ledgers cmp T)"
    and "\<forall>t\<in>set (of_party (accountName L) T). is_whole (debit t) \<and> is_whole (credit t)"
    and "(\<Sum>t\<leftarrow>of_party (accountName L) T. \<bar>whole_of (debit t)\<bar> + \<bar>whole_of (credit t)\<bar>)
           < 2 ^ 53"
  shows "((\<forall>e\<in>set (entries L). accountType e \<in> {Asset, Expense})
            \<longrightarrow> closingBalance L = totalDebit L - totalCredit L) \<and>
         ((\<forall>e\<in>set (entries L). accountType e \<in> {Liability, Income, Equity})
            \<longrightarrow> closingBalance L = totalCredit L - totalDebit L)"
proof (intro conjI impI)
  let ?p = "accountName L"
  let ?txs = "partyTxs cmp T ?p"
  from assms(1) have L: "L = ledger_of cmp T ?p" by (simp add: ledgers_memD)
  have wd: "\<forall>t\<in>set (of_party ?p T). is_whole (debit t)"
    and wc: "\<forall>t\<in>set (of_party ?p T). is_whole (credit t)"
    using assms(2) by simp_all
  have bound': "(\<Sum>t\<leftarrow>of_party ?p T. \<bar>whole_of (credit t)\<bar> + \<bar>whole_of (debit t)\<bar>) < 2 ^ 53"
    using assms(3) by (simp add: add.commute)
  have txs: "map tx_of (entries L) = ?txs"
    by (subst L) (rule txs_ledger_of)
  have types: "(\<forall>t\<in>set (of_party ?p T). accountType t \<in> A)
      \<longleftrightarrow> (\<forall>e\<in>set (entries L). accountType e \<in> A)" for A
  proof -
    have "set (of_party ?p T) = set (map tx_of (entries L))"
      by (simp add: txs set_partyTxs of_party_def)
    then show ?thesis by (simp add: accountType_tx_of)
  qed
  have cb: "closingBalance L = foldl (+) 0 (map signed_amount ?txs)"
    by (subst L) (rule closingBalance_ledger_of)
  have td: "totalDebit L = foldl (+) 0 (map debit ?txs)"
    by (subst L) (rule totalDebit_ledger_of)
  have tc: "totalCredit L = foldl (+) 0 (map credit ?txs)"
    by (subst L) (rule totalCredit_ledger_of)
  {
    assume "\<forall>e\<in>set (entries L). accountType e \<in> {Asset, Expense}"
    then have "\<forall>t\<in>set (of_party ?p T). signed_amount t = debit t - credit t"
      unfolding types[symmetric] by (auto simp: signed_amount_def)
    from fold_differences[OF wd wc assms(3) this]
    show "closingBalance L = totalDebit L - totalCredit L"
      by (simp only: cb td tc)
  }
  {
    assume "\<forall>e\<in>set (entries L). accountType e \<in> {Liability, Income, Equity}"
    then have "\<forall>t\<in>set (of_party ?p T). signed_amount t = credit t - debit t"
      unfolding types[symmetric] by (auto simp: signed_amount_def)
    from fold_differences[OF wc wd bound' this]
    show "closingBalance L = totalCredit L - totalDebit L"
      by (simp only: cb td tc)
  }
qed

theorem closing_balance_of_uniform_whole_ledger_witness:
  "ledgers codeunit_compare [whole_in, whole_out] ! 0
     \<in> set (ledgers codeunit_compare [whole_in, whole_out]) \<and>
   map accountType (entries (ledgers codeunit_compare [whole_in, whole_out] ! 0))
     = [Asset, Asset] \<and>
   totalDebit (ledgers codeunit_compare [whole_in, whole_out] ! 0) = double_of_int 1000 \<and>
   totalCredit (ledgers codeunit_compare [whole_in, whole_out] ! 0) = double_of_int 400 \<and>
   closingBalance (ledgers codeunit_compare [whole_in, whole_out] ! 0) = double_of_int 600"
proof -
  let ?T = "[whole_in, whole_out]"
  let ?L = "ledgers codeunit_compare ?T ! 0"
  have l: "ledgers codeunit_compare ?T = [ledger_of codeunit_compare ?T ''Cash'']"
    by (rule ledgers_single_party) (simp_all add: posting_defs)
  have h: "?L \<in> set (ledgers codeunit_compare ?T)" by (simp add: l)
  have n: "accountName ?L = ''Cash''" by (simp only: l nth_Cons_0 accountName_ledger_of)
  have op: "of_party ''Cash'' ?T = ?T" by (simp add: of_party_def posting_defs)
  have p: "partyTxs codeunit_compare ?T ''Cash'' = ?T"
    by (simp add: partyTxs_def Array_sort_def compare_same posting_defs)
  have ty: "map accountType (map tx_of (entries ?L)) = [Asset, Asset]"
    by (simp only: l nth_Cons_0 txs_ledger_of p) (simp add: posting_defs)
  then have ty': "map accountType (entries ?L) = [Asset, Asset]"
    by (simp add: accountType_tx_of comp_def)
  have "\<forall>a\<in>set (map accountType (entries ?L)). a \<in> {Asset, Expense}"
    unfolding ty' by simp
  then have a: "\<forall>e\<in>set (entries ?L). accountType e \<in> {Asset, Expense}" by simp
  have w: "\<forall>t\<in>set (of_party (accountName ?L) ?T). is_whole (debit t) \<and> is_whole (credit t)"
    unfolding n op by (simp add: posting_defs is_whole_zero is_whole_double_of_int)
  have b: "(\<Sum>t\<leftarrow>of_party (accountName ?L) ?T. \<bar>whole_of (debit t)\<bar> + \<bar>whole_of (credit t)\<bar>)
      < 2 ^ 53"
    unfolding n op by (simp add: posting_defs whole_of_zero whole_of_double_of_int)
  have td: "totalDebit ?L = double_of_int 1000"
    unfolding l nth_Cons_0 totalDebit_ledger_of p
    by (simp add: posting_defs zero_double_of_int double_of_int_plus)
  have tc: "totalCredit ?L = double_of_int 400"
    unfolding l nth_Cons_0 totalCredit_ledger_of p
    by (simp add: posting_defs zero_double_of_int double_of_int_plus)
  from closing_balance_of_uniform_whole_ledger[OF h w b] a
  have "closingBalance ?L = totalDebit ?L - totalCredit ?L" by blast
  then have "closingBalance ?L = double_of_int 600"
    unfolding td tc by (simp add: double_of_int_minus)
  with h ty' td tc show ?thesis by (simp only: simp_thms)
qed

text \<open>
  Without the restriction the two can differ: after a debit of \<open>0.3\<close> and credits
  of \<open>0.1\<close> and \<open>0.2\<close> an \<open>Asset\<close> ledger closes at \<open>-1 * 2^(-55)\<close>, while
  \<open>totalDebit - totalCredit\<close> is \<open>-2 * 2^(-55)\<close>.
\<close>

theorem closing_balance_differs_from_totals:
  "map accountType (entries (ledgers codeunit_compare [paid_in, paid_out_1, paid_out_2] ! 0))
     = [Asset, Asset, Asset] \<and>
   closingBalance (ledgers codeunit_compare [paid_in, paid_out_1, paid_out_2] ! 0)
     = dyadic (- 1) (- 55) \<and>
   totalDebit (ledgers codeunit_compare [paid_in, paid_out_1, paid_out_2] ! 0)
     = dyadic 10808639105689190 (- 55) \<and>
   totalCredit (ledgers codeunit_compare [paid_in, paid_out_1, paid_out_2] ! 0)
     = dyadic 10808639105689192 (- 55) \<and>
   totalDebit (ledgers codeunit_compare [paid_in, paid_out_1, paid_out_2] ! 0)
     - totalCredit (ledgers codeunit_compare [paid_in, paid_out_1, paid_out_2] ! 0)
     = dyadic (- 2) (- 55) \<and>
   closingBalance (ledgers codeunit_compare [paid_in, paid_out_1, paid_out_2] ! 0)
     \<noteq> totalDebit (ledgers codeunit_compare [paid_in, paid_out_1, paid_out_2] ! 0)
       - totalCredit (ledgers codeunit_compare [paid_in, paid_out_1, paid_out_2] ! 0)"
proof -
  let ?T = "[paid_in, paid_out_1, paid_out_2]"
  let ?L = "ledgers codeunit_compare ?T ! 0"
  have l: "ledgers codeunit_compare ?T = [ledger_of codeunit_compare ?T ''Cash'']"
    by (rule ledgers_single_party) (simp_all add: posting_defs)
  have p: "partyTxs codeunit_compare ?T ''Cash'' = ?T"
    by (simp add: partyTxs_def Array_sort_def codeunit_compare_def compare_by_def posting_defs)
  have ty: "map accountType (map tx_of (entries ?L)) = [Asset, Asset, Asset]"
    by (simp only: l nth_Cons_0 txs_ledger_of p) (simp add: posting_defs)
  then have ty': "map accountType (entries ?L) = [Asset, Asset, Asset]"
    by (simp add: accountType_tx_of comp_def)
  have sa: "map signed_amount ?T = [three_tenths - 0, 0 - tenth, 0 - two_tenths]"
    by (simp add: signed_amount_def posting_defs)
  have cb: "closingBalance ?L = dyadic (- 1) (- 55)"
    unfolding l nth_Cons_0 closingBalance_ledger_of p sa
    unfolding tenth_def two_tenths_def three_tenths_def zero_dyadic[of "- 55"]
    by (simp add: dyadic_plus dyadic_minus round53_eval)
  have td: "totalDebit ?L = dyadic 10808639105689190 (- 55)"
    unfolding l nth_Cons_0 totalDebit_ledger_of p
    by (simp add: posting_defs)
      (simp add: tenth_def two_tenths_def three_tenths_def zero_dyadic[of "- 55"]
        dyadic_plus round53_eval)
  have tc: "totalCredit ?L = dyadic 10808639105689192 (- 55)"
    unfolding l nth_Cons_0 totalCredit_ledger_of p
    by (simp add: posting_defs)
      (simp add: tenth_def two_tenths_def three_tenths_def zero_dyadic[of "- 55"]
        dyadic_plus round53_eval)
  have df: "totalDebit ?L - totalCredit ?L = dyadic (- 2) (- 55)"
    unfolding td tc by (simp add: dyadic_minus round53_eval)
  have "closingBalance ?L \<noteq> totalDebit ?L - totalCredit ?L"
    unfolding df cb by (simp add: dyadic_eq_iff)
  with ty' cb td tc df show ?thesis by (simp only: simp_thms)
qed

section \<open>The derivation and its input array\<close>

lemma partyTxs_st_eq:
  "a < length st \<Longrightarrow>
     partyTxs_st cmp a p st = (length st, st @ [partyTxs cmp (st ! a) p])"
  by (simp add: partyTxs_st_def filter_st_def sort_st_def partyTxs_def nth_append)

lemma ledger_of_st_eq:
  "a < length st \<Longrightarrow>
     ledger_of_st cmp a p st = (ledger_of cmp (st ! a) p, st @ [partyTxs cmp (st ! a) p])"
  by (simp add: ledger_of_st_def partyTxs_st_eq ledger_of_def)

lemma map_ledger_of_st_eq:
  "a < length st \<Longrightarrow>
     map_ledger_of_st cmp a ps st = (map (ledger_of cmp (st ! a)) ps, st @ map (partyTxs cmp (st ! a)) ps)"
proof (induction ps arbitrary: st)
  case Nil
  show ?case by simp
next
  case (Cons p ps)
  let ?st' = "st @ [partyTxs cmp (st ! a) p]"
  from Cons.prems have a': "a < length ?st'" and same: "?st' ! a = st ! a"
    by (simp_all add: nth_append)
  from Cons.IH[OF a'] Cons.prems show ?case
    by (simp add: ledger_of_st_eq same)
qed

lemma ledgers_st_eq:
  "a < length st \<Longrightarrow>
     ledgers_st cmp a st =
       (ledgers cmp (st ! a), st @ map (partyTxs cmp (st ! a)) (Array_from_Set (map party (st ! a))))"
  by (simp add: ledgers_st_def map_ledger_of_st_eq ledgers_def)

text \<open>
  C9. Run on a store whose array \<open>a\<close> holds the input, the derivation returns the
  ledgers \<open>ledgers\<close> computes from the contents of \<open>a\<close>; it leaves every array
  that was in the store, the input among them, as it was; a second run on the store
  the first one left returns the same ledgers; and so does a run on any store from any
  array with the same contents.
\<close>

theorem derivation_pure_and_deterministic:
  fixes st :: "'n::{zero,plus,minus,ord} store"
  assumes "a < length st"
  shows "fst (ledgers_st cmp a st) = ledgers cmp (st ! a) \<and>
         (\<forall>b<length st. snd (ledgers_st cmp a st) ! b = st ! b) \<and>
         fst (ledgers_st cmp a (snd (ledgers_st cmp a st))) = fst (ledgers_st cmp a st) \<and>
         (\<forall>st' a'. a' < length st' \<and> st' ! a' = st ! a
            \<longrightarrow> fst (ledgers_st cmp a' st') = fst (ledgers_st cmp a st))"
proof (intro conjI allI impI)
  let ?st1 = "snd (ledgers_st cmp a st)"
  from assms show r: "fst (ledgers_st cmp a st) = ledgers cmp (st ! a)"
    by (simp add: ledgers_st_eq)
  show keep: "?st1 ! b = st ! b" if "b < length st" for b
    using assms that by (simp add: ledgers_st_eq nth_append)
  from assms have "a < length ?st1" by (simp add: ledgers_st_eq)
  then have "fst (ledgers_st cmp a ?st1) = ledgers cmp (?st1 ! a)"
    by (simp add: ledgers_st_eq)
  with keep[OF assms] r show "fst (ledgers_st cmp a ?st1) = fst (ledgers_st cmp a st)"
    by simp
  fix st' :: "'n store" and a'
  assume "a' < length st' \<and> st' ! a' = st ! a"
  with r show "fst (ledgers_st cmp a' st') = fst (ledgers_st cmp a st)"
    by (simp add: ledgers_st_eq)
qed

theorem derivation_pure_and_deterministic_witness:
  "(0::nat) < length [example_txs] \<and>
   fst (ledgers_st codeunit_compare 0 [example_txs]) = ledgers codeunit_compare example_txs \<and>
   snd (ledgers_st codeunit_compare 0 [example_txs]) ! 0 = example_txs \<and>
   snd (ledgers_st codeunit_compare 0 [example_txs]) ! 1 = [abc_invoice, abc_receipt] \<and>
   fst (ledgers_st codeunit_compare 0 (snd (ledgers_st codeunit_compare 0 [example_txs]))) = fst (ledgers_st codeunit_compare 0 [example_txs])"
proof -
  have h: "(0::nat) < length [example_txs]" by simp
  have s: "snd (ledgers_st codeunit_compare 0 [example_txs]) ! 1 = [abc_invoice, abc_receipt]" by code_simp
  from derivation_pure_and_deterministic[OF h] s show ?thesis by simp
qed

end
